theory Spec2Isabelle
  imports Complex_Main
begin

section \<open>Common ground: Python errors and strings\<close>

text \<open>
  Both scripts are Python run inside Blender. An exception that the script does not catch
  ends the run; the model keeps it as a value. Python floats are modelled as reals:
  rounding error, NaN and infinities are outside this development.
\<close>

datatype py_error =
    ZeroDivisionError
  | IndexError
  | AttributeError
  | ReferenceError
  | TypeError

text \<open>\<^verbatim>\<open>s.startswith(p)\<close>, \<^verbatim>\<open>p in s\<close> and \<^verbatim>\<open>s.removeprefix(p)\<close> on strings.\<close>

fun startswith :: "string \<Rightarrow> string \<Rightarrow> bool" where
  "startswith s [] = True"
| "startswith [] (p # ps) = False"
| "startswith (c # cs) (p # ps) = (c = p \<and> startswith cs ps)"

fun str_in :: "string \<Rightarrow> string \<Rightarrow> bool" where
  "str_in p [] = (p = [])"
| "str_in p (c # cs) = (startswith (c # cs) p \<or> str_in p cs)"

definition removeprefix :: "string \<Rightarrow> string \<Rightarrow> string" where
  "removeprefix s p = (if startswith s p then drop (length p) s else s)"

section \<open>generate\_tunnel.py: user settings and derived angles\<close>

record settings =
  inner_radius :: real
  thickness :: real
  ring_length :: real
  full_circle_res :: int
  regular_count :: int
  key_angle_factor :: real
  gn_ring_count :: int
  gn_ring_spacing :: real
  gn_rot_jitter_deg :: int
  gn_pos_jitter :: real
  gn_seed :: int

text \<open>The values the script is shipped with.\<close>

definition user_settings :: settings where
  "user_settings =
     \<lparr> inner_radius = 245 / 100,
       thickness = 30 / 100,
       ring_length = 15 / 10,
       full_circle_res = 128,
       regular_count = 5,
       key_angle_factor = 6 / 10,
       gn_ring_count = 10,
       gn_ring_spacing = 15 / 10,
       gn_rot_jitter_deg = 40,
       gn_pos_jitter = 1 / 100,
       gn_seed = 27 \<rparr>"

text \<open>
  \<^verbatim>\<open>regular_angle_deg = 360.0 / (regular_count + key_angle_factor)\<close> and
  \<^verbatim>\<open>key_angle_deg = regular_angle_deg * key_angle_factor\<close>. A zero denominator raises.
\<close>

definition regular_angle_deg :: "settings \<Rightarrow> py_error + real" where
  "regular_angle_deg s =
     (let d = real_of_int (regular_count s) + key_angle_factor s
      in if d = 0 then Inl ZeroDivisionError else Inr (360 / d))"

definition key_angle_deg :: "settings \<Rightarrow> py_error + real" where
  "key_angle_deg s =
     (case regular_angle_deg s of
        Inl e \<Rightarrow> Inl e
      | Inr ra \<Rightarrow> Inr (ra * key_angle_factor s))"

definition radians :: "real \<Rightarrow> real" where
  "radians d = d * pi / 180"

section \<open>generate\_tunnel.py: the segment mesh builder\<close>

text \<open>
  Python's \<^verbatim>\<open>round(x)\<close> on a float returns the nearest integer and resolves a tie towards
  the even neighbour.
\<close>

definition py_round :: "real \<Rightarrow> int" where
  "py_round x =
     (let f = \<lfloor>x\<rfloor>; d = x - of_int f
      in if d < 1 / 2 then f
         else if 1 / 2 < d then f + 1
         else if even f then f else f + 1)"

type_synonym vertex = "real \<times> real \<times> real"
type_synonym face = "int \<times> int \<times> int \<times> int"

record mesh_data =
  md_name :: string
  md_verts :: "vertex list"
  md_edges :: "(int \<times> int) list"
  md_faces :: "face list"
  md_use_smooth :: "bool list"

record segment_object =
  so_name :: string
  so_mesh :: mesh_data
  so_collections :: "string list"

text \<open>\<^verbatim>\<open>steps = max(8, round(full_circle_res * angle_deg / 360.0))\<close>\<close>

definition segment_steps :: "settings \<Rightarrow> real \<Rightarrow> int" where
  "segment_steps s angle_deg =
     max 8 (py_round (real_of_int (full_circle_res s) * angle_deg / 360))"

text \<open>The body of the first loop: the four vertices appended at angular step \<open>i\<close>.\<close>

definition step_verts :: "settings \<Rightarrow> real \<Rightarrow> int \<Rightarrow> int \<Rightarrow> vertex list" where
  "step_verts s angle_deg steps i =
     (let a_rad = radians angle_deg;
          start = - a_rad / 2;
          end = a_rad / 2;
          r_in = inner_radius s;
          r_out = inner_radius s + thickness s;
          y0 = - ring_length s / 2;
          y1 = ring_length s / 2;
          t = start + (end - start) * (real_of_int i / real_of_int steps);
          c = cos t;
          sn = sin t
      in [(r_in * c, y0, r_in * sn),
          (r_out * c, y0, r_out * sn),
          (r_in * c, y1, r_in * sn),
          (r_out * c, y1, r_out * sn)])"

primrec verts_loop :: "settings \<Rightarrow> real \<Rightarrow> int \<Rightarrow> int list \<Rightarrow> vertex list \<Rightarrow> vertex list" where
  "verts_loop s angle_deg steps [] verts = verts"
| "verts_loop s angle_deg steps (i # is) verts =
     verts_loop s angle_deg steps is (verts @ step_verts s angle_deg steps i)"

text \<open>The body of the second loop: the four side quads between steps \<open>i\<close> and \<open>i + 1\<close>.\<close>

definition step_faces :: "int \<Rightarrow> face list" where
  "step_faces i =
     (let b0 = i * 4; b1 = (i + 1) * 4
      in [(b0, b1, b1 + 2, b0 + 2),
          (b0 + 1, b0 + 3, b1 + 3, b1 + 1),
          (b0, b0 + 1, b1 + 1, b1),
          (b0 + 2, b1 + 2, b1 + 3, b0 + 3)])"

primrec faces_loop :: "int list \<Rightarrow> face list \<Rightarrow> face list" where
  "faces_loop [] faces = faces"
| "faces_loop (i # is) faces = faces_loop is (faces @ step_faces i)"

text \<open>
  \<^verbatim>\<open>make_segment_mesh(name, angle_deg)\<close>. \<^verbatim>\<open>range(steps + 1)\<close> is \<open>[0..steps]\<close> and
  \<^verbatim>\<open>range(steps)\<close> is \<open>[0..steps - 1]\<close>. The new object is linked to the collection
  \<^verbatim>\<open>Tunnel\<close> only, and every polygon is flat shaded.
\<close>

definition make_segment_mesh :: "settings \<Rightarrow> string \<Rightarrow> real \<Rightarrow> segment_object" where
  "make_segment_mesh s name angle_deg =
     (let steps = segment_steps s angle_deg;
          verts = verts_loop s angle_deg steps [0..steps] [];
          faces = faces_loop [0..steps - 1] [];
          last = steps * 4;
          faces = faces @ [(0, 2, 3, 1)];
          faces = faces @ [(last, last + 1, last + 3, last + 2)];
          me = \<lparr> md_name = name @ ''_Mesh'', md_verts = verts, md_edges = [],
                 md_faces = faces, md_use_smooth = replicate (length faces) False \<rparr>
      in \<lparr> so_name = name, so_mesh = me, so_collections = [''Tunnel''] \<rparr>)"

section \<open>generate\_tunnel.py: the ring part of the node graph\<close>

text \<open>
  The script builds a geometry-node graph; Blender evaluates it. The scalar nodes that feed
  the rotation of the instances are modelled as terms: an input socket that is linked holds
  the node it is linked from, an unlinked one holds its \<^verbatim>\<open>default_value\<close>.
\<close>

datatype math_operation = ADD | MULTIPLY

datatype scalar_node =
    GeometryNodeInputIndex
  | Default_value real
  | ShaderNodeMath math_operation scalar_node scalar_node

text \<open>
  Blender's evaluation of a scalar field at the element with index \<open>i\<close>: the index node
  yields \<open>i\<close>, a math node applies its operation to its two inputs.
\<close>

fun eval_scalar :: "scalar_node \<Rightarrow> nat \<Rightarrow> real" where
  "eval_scalar GeometryNodeInputIndex i = real i"
| "eval_scalar (Default_value v) i = v"
| "eval_scalar (ShaderNodeMath ADD a b) i = eval_scalar a i + eval_scalar b i"
| "eval_scalar (ShaderNodeMath MULTIPLY a b) i = eval_scalar a i * eval_scalar b i"

record combine_xyz =
  cx_X :: scalar_node
  cx_Y :: scalar_node
  cx_Z :: scalar_node

definition eval_vector :: "combine_xyz \<Rightarrow> nat \<Rightarrow> real \<times> real \<times> real" where
  "eval_vector v i = (eval_scalar (cx_X v) i, eval_scalar (cx_Y v) i, eval_scalar (cx_Z v) i)"

text \<open>
  An \<^verbatim>\<open>GeometryNodeInstanceOnPoints\<close> node fed by a \<^verbatim>\<open>GeometryNodeMeshLine\<close> with the given
  point count (all points moved to the origin), the object whose geometry is instanced, and
  the rotation vector.
\<close>

record instance_on_points =
  iop_point_count :: int
  iop_instance :: string
  iop_rotation :: combine_xyz

text \<open>One instance per point, the rotation field evaluated at the point's index.\<close>

definition instance_rotations :: "instance_on_points \<Rightarrow> (real \<times> real \<times> real) list" where
  "instance_rotations n = map (eval_vector (iop_rotation n)) [0..<nat (iop_point_count n)]"

definition rotation_y :: "real \<times> real \<times> real \<Rightarrow> real" where
  "rotation_y r = fst (snd r)"

text \<open>
  The nodes as the script creates and links them. \<^verbatim>\<open>add_half\<close>: index + 0.5;
  \<^verbatim>\<open>angle_reg\<close>: that times \<^verbatim>\<open>math.radians(regular_angle_deg)\<close>; \<^verbatim>\<open>rot_vec_reg\<close>: the Y
  input linked, X and Z left at their default 0.
\<close>

definition add_half :: scalar_node where
  "add_half = ShaderNodeMath ADD GeometryNodeInputIndex (Default_value (1 / 2))"

definition angle_reg :: "real \<Rightarrow> scalar_node" where
  "angle_reg ra = ShaderNodeMath MULTIPLY add_half (Default_value (radians ra))"

definition rot_vec_reg :: "real \<Rightarrow> combine_xyz" where
  "rot_vec_reg ra = \<lparr> cx_X = Default_value 0, cx_Y = angle_reg ra, cx_Z = Default_value 0 \<rparr>"

definition inst_reg :: "settings \<Rightarrow> real \<Rightarrow> instance_on_points" where
  "inst_reg s ra =
     \<lparr> iop_point_count = regular_count s,
       iop_instance = ''Segment (Regular)'',
       iop_rotation = rot_vec_reg ra \<rparr>"

text \<open>
  \<^verbatim>\<open>key_rot_angle = math.radians(regular_count * regular_angle_deg + key_angle_deg / 2.0)\<close>,
  written into the Y input of \<^verbatim>\<open>rot_vec_key\<close>; the key mesh line has one point.
\<close>

definition key_rot_angle :: "settings \<Rightarrow> real \<Rightarrow> real \<Rightarrow> real" where
  "key_rot_angle s ra ka = radians (real_of_int (regular_count s) * ra + ka / 2)"

definition rot_vec_key :: "settings \<Rightarrow> real \<Rightarrow> real \<Rightarrow> combine_xyz" where
  "rot_vec_key s ra ka =
     \<lparr> cx_X = Default_value 0, cx_Y = Default_value (key_rot_angle s ra ka),
       cx_Z = Default_value 0 \<rparr>"

definition inst_key :: "settings \<Rightarrow> real \<Rightarrow> real \<Rightarrow> instance_on_points" where
  "inst_key s ra ka =
     \<lparr> iop_point_count = 1,
       iop_instance = ''Segment (Key)'',
       iop_rotation = rot_vec_key s ra ka \<rparr>"

text \<open>
  The ring of one run: the derived angles are computed first (the run ends there when the
  division raises), then the two instancing nodes are built from them.
\<close>

record ring_nodes =
  ring_regular_angle :: real
  ring_key_angle :: real
  ring_inst_reg :: instance_on_points
  ring_inst_key :: instance_on_points

definition build_ring :: "settings \<Rightarrow> py_error + ring_nodes" where
  "build_ring s =
     (case regular_angle_deg s of
        Inl e \<Rightarrow> Inl e
      | Inr ra \<Rightarrow>
          (case key_angle_deg s of
             Inl e \<Rightarrow> Inl e
           | Inr ka \<Rightarrow>
               Inr \<lparr> ring_regular_angle = ra, ring_key_angle = ka,
                     ring_inst_reg = inst_reg s ra, ring_inst_key = inst_key s ra ka \<rparr>))"

text \<open>The Y rotations (radians) of the regular instances and of the key instance.\<close>

definition regular_rotations :: "ring_nodes \<Rightarrow> real list" where
  "regular_rotations r = map rotation_y (instance_rotations (ring_inst_reg r))"

definition key_rotations :: "ring_nodes \<Rightarrow> real list" where
  "key_rotations r = map rotation_y (instance_rotations (ring_inst_key r))"

section \<open>generate\_tunnel.py: the controller's modifier inputs\<close>

text \<open>
  A run either goes on with a state or ends in an uncaught exception; the state reached at
  that moment is kept, since everything done before the exception stays done.
\<close>

datatype 's outcome = Ok 's | Raised py_error 's

text \<open>
  The interface of the node group: the script creates seven input sockets and one output
  socket; Blender chooses each socket's identifier (here: a function of the socket's
  position, supplied by the host).
\<close>

record interface_socket =
  sock_name :: string
  sock_in_out :: string
  sock_type :: string
  sock_identifier :: string

definition new_socket ::
  "(nat \<Rightarrow> string) \<Rightarrow> string \<Rightarrow> string \<Rightarrow> string \<Rightarrow> interface_socket list \<Rightarrow> interface_socket list" where
  "new_socket host_ident name in_out stype items =
     items @ [\<lparr> sock_name = name, sock_in_out = in_out, sock_type = stype,
                sock_identifier = host_ident (length items) \<rparr>]"

definition make_in ::
  "(nat \<Rightarrow> string) \<Rightarrow> string \<Rightarrow> string \<Rightarrow> interface_socket list \<Rightarrow> interface_socket list" where
  "make_in host_ident name stype = new_socket host_ident name ''INPUT'' stype"

definition make_out ::
  "(nat \<Rightarrow> string) \<Rightarrow> string \<Rightarrow> string \<Rightarrow> interface_socket list \<Rightarrow> interface_socket list" where
  "make_out host_ident name stype = new_socket host_ident name ''OUTPUT'' stype"

definition tunnel_interface :: "(nat \<Rightarrow> string) \<Rightarrow> interface_socket list" where
  "tunnel_interface host_ident =
     (let items = [];
          items = make_in host_ident ''Segment (Regular)'' ''NodeSocketObject'' items;
          items = make_in host_ident ''Segment (Key)'' ''NodeSocketObject'' items;
          items = make_in host_ident ''Ring Count'' ''NodeSocketInt'' items;
          items = make_in host_ident ''Ring Spacing'' ''NodeSocketFloat'' items;
          items = make_in host_ident ''Rot Jitter Deg'' ''NodeSocketFloat'' items;
          items = make_in host_ident ''Pos Jitter'' ''NodeSocketFloat'' items;
          items = make_in host_ident ''Seed'' ''NodeSocketInt'' items;
          items = make_out host_ident ''Geometry'' ''NodeSocketGeometry'' items
      in items)"

text \<open>
  Values written to the modifier, and the modifier itself: \<open>mod_items\<close> lists the writes
  \<^verbatim>\<open>mod[key] = value\<close> in the order they were made (a later write to a key wins).
\<close>

datatype gn_value = ObjectRef string | IntValue int | FloatValue real

record nodes_modifier =
  mod_name :: string
  mod_node_group :: string
  mod_items :: "(string \<times> gn_value) list"

definition mod_getitem :: "nodes_modifier \<Rightarrow> string \<Rightarrow> gn_value option" where
  "mod_getitem m k = map_of (rev (mod_items m)) k"

text \<open>Console output of the last part of the script.\<close>

datatype console_line =
    Modifier_inputs_assigned
  | Could_not_auto_assign py_error
  | DONE

record controller_state =
  cs_modifier :: nodes_modifier
  cs_console :: "console_line list"

text \<open>
  The body of the \<^verbatim>\<open>try\<close> block, one statement \<^verbatim>\<open>mod[input_sockets[k].identifier] = v\<close>
  after the other. Indexing past the end of \<^verbatim>\<open>input_sockets\<close> raises \<^verbatim>\<open>IndexError\<close>; the
  host may refuse a write (\<open>host_setitem key value = Some e\<close>: it raises \<open>e\<close>). Writes made
  before an exception stay.
\<close>

fun assign_inputs ::
  "(string \<Rightarrow> gn_value \<Rightarrow> py_error option) \<Rightarrow> interface_socket list
     \<Rightarrow> (nat \<times> gn_value) list \<Rightarrow> nodes_modifier \<Rightarrow> nodes_modifier outcome" where
  "assign_inputs host_setitem socks [] m = Ok m"
| "assign_inputs host_setitem socks ((k, v) # rest) m =
     (if length socks \<le> k then Raised IndexError m
      else
        (case host_setitem (sock_identifier (socks ! k)) v of
           Some e \<Rightarrow> Raised e m
         | None \<Rightarrow>
             assign_inputs host_setitem socks rest
               (m\<lparr>mod_items := mod_items m @ [(sock_identifier (socks ! k), v)]\<rparr>)))"

text \<open>The seven statements of the block: socket position and value.\<close>

definition controller_values :: "settings \<Rightarrow> string \<Rightarrow> string \<Rightarrow> (nat \<times> gn_value) list" where
  "controller_values s seg_reg seg_key =
     [(0, ObjectRef seg_reg),
      (1, ObjectRef seg_key),
      (2, IntValue (gn_ring_count s)),
      (3, FloatValue (gn_ring_spacing s)),
      (4, IntValue (gn_rot_jitter_deg s)),
      (5, FloatValue (gn_pos_jitter s)),
      (6, IntValue (gn_seed s))]"

text \<open>\<^verbatim>\<open>input_sockets = [s for s in ng.interface.items_tree if s.in_out == "INPUT"]\<close>\<close>

definition input_sockets :: "interface_socket list \<Rightarrow> interface_socket list" where
  "input_sockets items_tree = filter (\<lambda>sock. sock_in_out sock = ''INPUT'') items_tree"

definition try_block ::
  "(string \<Rightarrow> gn_value \<Rightarrow> py_error option) \<Rightarrow> interface_socket list \<Rightarrow> settings
     \<Rightarrow> string \<Rightarrow> string \<Rightarrow> nodes_modifier \<Rightarrow> nodes_modifier outcome" where
  "try_block host_setitem items_tree s seg_reg seg_key m =
     assign_inputs host_setitem (input_sockets items_tree)
       (controller_values s seg_reg seg_key) m"

text \<open>
  \<^verbatim>\<open>try: ... print("Modifier inputs assigned!") except Exception as e: print("Could not
  auto-assign: ...")\<close>, followed by the closing report of the script.
\<close>

definition set_inputs ::
  "(string \<Rightarrow> gn_value \<Rightarrow> py_error option) \<Rightarrow> interface_socket list \<Rightarrow> settings
     \<Rightarrow> string \<Rightarrow> string \<Rightarrow> controller_state \<Rightarrow> controller_state outcome" where
  "set_inputs host_setitem items_tree s seg_reg seg_key st =
     (case try_block host_setitem items_tree s seg_reg seg_key (cs_modifier st) of
        Ok m \<Rightarrow>
          Ok (st\<lparr>cs_modifier := m, cs_console := cs_console st @ [Modifier_inputs_assigned]\<rparr>)
      | Raised e m \<Rightarrow>
          Ok (st\<lparr>cs_modifier := m, cs_console := cs_console st @ [Could_not_auto_assign e]\<rparr>))"

definition finish_generation ::
  "(string \<Rightarrow> gn_value \<Rightarrow> py_error option) \<Rightarrow> interface_socket list \<Rightarrow> settings
     \<Rightarrow> string \<Rightarrow> string \<Rightarrow> controller_state \<Rightarrow> controller_state outcome" where
  "finish_generation host_setitem items_tree s seg_reg seg_key st =
     (case set_inputs host_setitem items_tree s seg_reg seg_key st of
        Raised e st' \<Rightarrow> Raised e st'
      | Ok st' \<Rightarrow> Ok (st'\<lparr>cs_console := cs_console st' @ [DONE]\<rparr>))"

text \<open>Identifiers as Blender 4 hands them out, used for concrete runs.\<close>

definition blender_identifier :: "nat \<Rightarrow> string" where
  "blender_identifier n =
     [''Socket_0'', ''Socket_1'', ''Socket_2'', ''Socket_3'', ''Socket_4'', ''Socket_5'',
      ''Socket_6'', ''Socket_7''] ! n"

section \<open>render\_scene.py: the scene as the driver sees it\<close>

definition SAMPLES :: int where
  "SAMPLES = 4096"

text \<open>
  Blender compares data blocks by identity; a collection is modelled by a reference
  number. An object carries what the driver reads of it: name, type, the
  \<^verbatim>\<open>hide_render\<close> flag, the collections it is linked to and its custom property
  \<^verbatim>\<open>frame_end\<close>, if it has one.
\<close>

type_synonym collection_ref = nat

record scene_object =
  ob_name :: string
  ob_type :: string
  ob_hide_render :: bool
  ob_users_collection :: "collection_ref list"
  ob_frame_end :: "int option"

datatype layer_collection =
  LayerCollection (lc_collection: collection_ref) (lc_exclude: bool)
    (lc_children: "layer_collection list")

record view_layer =
  vl_name :: string
  vl_layer_collection :: layer_collection
  vl_use :: bool
  vl_use_pass_combined :: bool
  vl_use_pass_z :: bool
  vl_use_pass_mist :: bool

record render_view =
  rv_name :: string
  rv_use :: bool

text \<open>
  Compositor nodes: a render-layers node with the name of its layer, a file-output node
  with the path of its first file slot and its base path. A link goes from an output
  socket (by name) of one node to an input socket (by position) of another; nodes are
  referred to by their position in the tree.
\<close>

datatype compositor_node =
    CompositorNodeRLayers (rl_layer: string)
  | CompositorNodeOutputFile (slot_path: string) (base_path: string)

type_synonym node_link = "nat \<times> string \<times> nat \<times> nat"

text \<open>
  What the driver does to the outside is recorded as events: an assignment to
  \<^verbatim>\<open>scene.camera\<close>, and a call of \<^verbatim>\<open>bpy.ops.render.render\<close> together with the scene
  settings the render then uses.
\<close>

record render_call =
  rc_animation :: bool
  rc_camera :: "scene_object option"
  rc_samples :: int
  rc_frame_end :: int
  rc_view_layers :: "view_layer list"
  rc_nodes :: "compositor_node list"
  rc_links :: "node_link list"

datatype event = Assign_camera scene_object | Render render_call

record scene =
  sc_samples :: int
  sc_views :: "render_view list"
  sc_camera :: "scene_object option"
  sc_frame_end :: int
  sc_view_layers :: "view_layer list"
  sc_nodes :: "compositor_node list"
  sc_links :: "node_link list"
  sc_events :: "event list"

text \<open>
  What the loop takes from outside the scene: the variable \<^verbatim>\<open>name\<close> (the scene name set
  by the script), \<^verbatim>\<open>default_frame_end\<close>, the value of \<^verbatim>\<open>getenv("CAMERAS")\<close>, and Blender's
  \<^verbatim>\<open>bpy.path.relpath\<close>.
\<close>

record driver_context =
  ctx_name :: string
  ctx_default_frame_end :: int
  ctx_CAMERAS :: "string option"
  ctx_relpath :: "string \<Rightarrow> string"

section \<open>render\_scene.py: the camera and layer loops\<close>

text \<open>
  \<^verbatim>\<open>find_layer_collection\<close>: depth-first search for the layer collection of a collection;
  \<open>None\<close> when the collection is nowhere below.
\<close>

fun find_layer_collection :: "layer_collection \<Rightarrow> collection_ref \<Rightarrow> layer_collection option"
  and find_in_children :: "layer_collection list \<Rightarrow> collection_ref \<Rightarrow> layer_collection option" where
  "find_layer_collection (LayerCollection coll excl children) collection =
     (if coll = collection then Some (LayerCollection coll excl children)
      else find_in_children children collection)"
| "find_in_children [] collection = None"
| "find_in_children (child_collection # rest) collection =
     (case find_layer_collection child_collection collection of
        Some result \<Rightarrow> Some result
      | None \<Rightarrow> find_in_children rest collection)"

text \<open>
  The loop over \<^verbatim>\<open>reversed(scene.render.views)\<close>: the views \<^verbatim>\<open>left\<close> and \<^verbatim>\<open>right\<close> are
  switched off, every other view is removed.
\<close>

fun switch_off :: "string \<Rightarrow> render_view list \<Rightarrow> render_view list" where
  "switch_off n [] = []"
| "switch_off n (v # vs) = (if rv_name v = n then v\<lparr>rv_use := False\<rparr> # vs else v # switch_off n vs)"

fun views_loop :: "render_view list \<Rightarrow> render_view list \<Rightarrow> render_view list" where
  "views_loop [] views = views"
| "views_loop (view # rest) views =
     (if rv_name view = ''left'' \<or> rv_name view = ''right''
      then views_loop rest (switch_off (rv_name view) views)
      else views_loop rest (remove1 view views))"

text \<open>The three nodes and two links created for a layer that is rendered.\<close>

definition layer_prefix :: "nat \<Rightarrow> view_layer \<Rightarrow> string" where
  "layer_prefix i layer = (if i \<noteq> 0 then vl_name layer @ ''/'' else '''')"

definition image_path :: "driver_context \<Rightarrow> string \<Rightarrow> nat \<Rightarrow> view_layer \<Rightarrow> string" where
  "image_path ctx camera_name i layer =
     ctx_relpath ctx (''renders/'' @ ctx_name ctx @ ''/'' @ layer_prefix i layer @ ''#_'' @ camera_name)"

definition mist_path :: "driver_context \<Rightarrow> string \<Rightarrow> nat \<Rightarrow> view_layer \<Rightarrow> string" where
  "mist_path ctx camera_name i layer =
     ctx_relpath ctx (''renders/'' @ ctx_name ctx @ ''/'' @ layer_prefix i layer @ ''m_#_'' @ camera_name)"

definition layer_nodes :: "driver_context \<Rightarrow> string \<Rightarrow> nat \<Rightarrow> view_layer \<Rightarrow> compositor_node list" where
  "layer_nodes ctx camera_name i layer =
     [CompositorNodeRLayers (vl_name layer),
      CompositorNodeOutputFile (image_path ctx camera_name i layer) ''//'',
      CompositorNodeOutputFile (mist_path ctx camera_name i layer) ''//'']"

definition layer_links :: "nat \<Rightarrow> node_link list" where
  "layer_links n = [(n, ''Image'', n + 1, 0), (n, ''Mist'', n + 2, 0)]"

text \<open>
  The body of \<^verbatim>\<open>for layer in scene.view_layers\<close>, for the layer at position \<open>i\<close>
  (\<^verbatim>\<open>layer != scene.view_layers[0]\<close> is \<open>i \<noteq> 0\<close>). \<^verbatim>\<open>camera.users_collection[0]\<close> raises
  \<^verbatim>\<open>IndexError\<close> on an empty list. In
  \<^verbatim>\<open>layer.use = not layer.name.startswith("_") and not layer_collection.exclude\<close> the
  right operand is evaluated only when the left one is true; there \<^verbatim>\<open>.exclude\<close> of \<^verbatim>\<open>None\<close>
  raises \<^verbatim>\<open>AttributeError\<close>.
\<close>

definition process_layer ::
  "driver_context \<Rightarrow> string \<Rightarrow> scene_object \<Rightarrow> nat \<Rightarrow> scene \<Rightarrow> scene outcome" where
  "process_layer ctx camera_name camera i sc =
     (let layer = sc_view_layers sc ! i
      in case ob_users_collection camera of
           [] \<Rightarrow> Raised IndexError sc
         | collection # _ \<Rightarrow>
             (let found = find_layer_collection (vl_layer_collection layer) collection
              in if startswith (vl_name layer) ''_''
                 then Ok (sc\<lparr>sc_view_layers := (sc_view_layers sc)[i := layer\<lparr>vl_use := False\<rparr>]\<rparr>)
                 else
                   (case found of
                      None \<Rightarrow> Raised AttributeError sc
                    | Some layer_collection \<Rightarrow>
                        if lc_exclude layer_collection
                        then Ok (sc\<lparr>sc_view_layers :=
                                      (sc_view_layers sc)[i := layer\<lparr>vl_use := False\<rparr>]\<rparr>)
                        else
                          (let layer = layer\<lparr>vl_use := True, vl_use_pass_combined := True,
                                 vl_use_pass_z := False, vl_use_pass_mist := True\<rparr>
                           in Ok (sc\<lparr>sc_view_layers := (sc_view_layers sc)[i := layer],
                                  sc_nodes := sc_nodes sc @ layer_nodes ctx camera_name i layer,
                                  sc_links := sc_links sc @ layer_links (length (sc_nodes sc))\<rparr>)))))"

fun layer_loop ::
  "driver_context \<Rightarrow> string \<Rightarrow> scene_object \<Rightarrow> nat list \<Rightarrow> scene \<Rightarrow> scene outcome" where
  "layer_loop ctx camera_name camera [] sc = Ok sc"
| "layer_loop ctx camera_name camera (i # is) sc =
     (case process_layer ctx camera_name camera i sc of
        Raised e sc' \<Rightarrow> Raised e sc'
      | Ok sc' \<Rightarrow> layer_loop ctx camera_name camera is sc')"

text \<open>The call of \<^verbatim>\<open>bpy.ops.render.render\<close> at the end of a camera's turn.\<close>

definition render :: "scene \<Rightarrow> scene" where
  "render sc =
     sc\<lparr>sc_events := sc_events sc @
        [Render \<lparr> rc_animation = (1 < sc_frame_end sc \<and> sc_frame_end sc < 250),
                  rc_camera = sc_camera sc,
                  rc_samples = sc_samples sc,
                  rc_frame_end = sc_frame_end sc,
                  rc_view_layers = sc_view_layers sc,
                  rc_nodes = sc_nodes sc,
                  rc_links = sc_links sc \<rparr>]\<rparr>"

text \<open>
  The two \<^verbatim>\<open>continue\<close> conditions at the head of the camera loop, and
  \<^verbatim>\<open>camera_name = camera.name.removeprefix("Camera_")\<close>.
\<close>

definition camera_name_of :: "scene_object \<Rightarrow> string" where
  "camera_name_of camera = removeprefix (ob_name camera) ''Camera_''"

definition not_importable :: "scene_object \<Rightarrow> bool" where
  "not_importable camera =
     (ob_type camera \<noteq> ''CAMERA'' \<or> str_in ''-noimp'' (ob_name camera) \<or> ob_hide_render camera)"

definition filtered_out :: "driver_context \<Rightarrow> scene_object \<Rightarrow> bool" where
  "filtered_out ctx camera =
     (case ctx_CAMERAS ctx of
        None \<Rightarrow> False
      | Some v \<Rightarrow> v \<noteq> [] \<and> \<not> str_in v (camera_name_of camera))"

text \<open>One turn of \<^verbatim>\<open>for camera in cameras\<close>.\<close>

definition process_camera :: "driver_context \<Rightarrow> scene_object \<Rightarrow> scene \<Rightarrow> scene outcome" where
  "process_camera ctx camera sc =
     (if not_importable camera then Ok sc
      else
        (let camera_name = camera_name_of camera
         in if filtered_out ctx camera then Ok sc
            else
              (let sc = sc\<lparr>sc_samples := (if camera_name = ''0'' then 4 else SAMPLES)\<rparr>;
                   sc = sc\<lparr>sc_views := views_loop (rev (sc_views sc)) (sc_views sc)\<rparr>;
                   sc = sc\<lparr>sc_views := sc_views sc @ [\<lparr>rv_name = camera_name, rv_use = True\<rparr>]\<rparr>;
                   sc = sc\<lparr>sc_camera := Some camera,
                          sc_events := sc_events sc @ [Assign_camera camera]\<rparr>;
                   sc = sc\<lparr>sc_frame_end :=
                          (case ob_frame_end camera of
                             None \<Rightarrow> ctx_default_frame_end ctx
                           | Some v \<Rightarrow> v)\<rparr>;
                   sc = sc\<lparr>sc_nodes := [], sc_links := []\<rparr>
               in case layer_loop ctx camera_name camera [0..<length (sc_view_layers sc)] sc of
                    Raised e sc' \<Rightarrow> Raised e sc'
                  | Ok sc' \<Rightarrow> Ok (render sc'))))"

fun camera_loop :: "driver_context \<Rightarrow> scene_object list \<Rightarrow> scene \<Rightarrow> scene outcome" where
  "camera_loop ctx [] sc = Ok sc"
| "camera_loop ctx (camera # cameras) sc =
     (case process_camera ctx camera sc of
        Raised e sc' \<Rightarrow> Raised e sc'
      | Ok sc' \<Rightarrow> camera_loop ctx cameras sc')"

text \<open>
  \<^verbatim>\<open>cameras = [obj for obj in bpy.data.objects if obj.type == "CAMERA"]\<close> and the loop. The
  record of events starts empty.
\<close>

definition render_scene :: "driver_context \<Rightarrow> scene_object list \<Rightarrow> scene \<Rightarrow> scene outcome" where
  "render_scene ctx objects sc =
     (let cameras = filter (\<lambda>obj. ob_type obj = ''CAMERA'') objects
      in camera_loop ctx cameras (sc\<lparr>sc_events := []\<rparr>))"

definition state_of :: "'s outcome \<Rightarrow> 's" where
  "state_of r = (case r of Ok s \<Rightarrow> s | Raised e s \<Rightarrow> s)"

definition raised :: "'s outcome \<Rightarrow> py_error option" where
  "raised r = (case r of Ok s \<Rightarrow> None | Raised e s \<Rightarrow> Some e)"

text \<open>The render calls among the events of a run.\<close>

fun renders_of :: "event list \<Rightarrow> render_call list" where
  "renders_of [] = []"
| "renders_of (Assign_camera c # evs) = renders_of evs"
| "renders_of (Render r # evs) = r # renders_of evs"

section \<open>Concrete scenes\<close>

text \<open>
  \<^verbatim>\<open>bpy.path.relpath\<close> as it behaves on a path relative to the working directory when
  Blender runs in the directory of the blend file: the path gets the prefix \<^verbatim>\<open>//\<close> unless
  it has it already.
\<close>

definition relpath_in_blend_dir :: "string \<Rightarrow> string" where
  "relpath_in_blend_dir p = (if startswith p ''//'' then p else ''//'' @ p)"

definition example_context :: driver_context where
  "example_context =
     \<lparr> ctx_name = ''S'', ctx_default_frame_end = 250, ctx_CAMERAS = None,
       ctx_relpath = relpath_in_blend_dir \<rparr>"

text \<open>
  A scene with two view layers over the same collections: the scene collection 0 with the
  child collection 1. Collection 7 is linked to neither.
\<close>

definition example_layer :: "string \<Rightarrow> view_layer" where
  "example_layer n =
     \<lparr> vl_name = n,
       vl_layer_collection = LayerCollection 0 False [LayerCollection 1 False []],
       vl_use = True, vl_use_pass_combined = True, vl_use_pass_z = True,
       vl_use_pass_mist = False \<rparr>"

definition example_scene :: "view_layer list \<Rightarrow> scene" where
  "example_scene layers =
     \<lparr> sc_samples = 128, sc_views = [\<lparr>rv_name = ''left'', rv_use = True\<rparr>,
                                       \<lparr>rv_name = ''right'', rv_use = True\<rparr>],
       sc_camera = None, sc_frame_end = 250, sc_view_layers = layers,
       sc_nodes = [], sc_links = [], sc_events = [] \<rparr>"

definition example_camera :: "string \<Rightarrow> bool \<Rightarrow> collection_ref list \<Rightarrow> scene_object" where
  "example_camera n hidden colls =
     \<lparr> ob_name = n, ob_type = ''CAMERA'', ob_hide_render = hidden,
       ob_users_collection = colls, ob_frame_end = None \<rparr>"

text \<open>
  The situations in which the layer loop dereferences something that is not there, for a
  given camera and the scene's view layers: the camera is in no collection and there is a
  layer to visit; or its first collection has no layer collection in some layer whose name
  does not start with an underscore.
\<close>

definition lookup_fails :: "scene_object \<Rightarrow> view_layer list \<Rightarrow> bool" where
  "lookup_fails camera layers =
     (case ob_users_collection camera of
        [] \<Rightarrow> layers \<noteq> []
      | collection # _ \<Rightarrow>
          list_ex (\<lambda>layer. \<not> startswith (vl_name layer) ''_''
                     \<and> find_layer_collection (vl_layer_collection layer) collection = None)
            layers)"

section \<open>Auxiliary notions for the proofs\<close>

text \<open>
  Auxiliary notions for the proofs. Two scenes agree on everything the layer loop leaves
  alone: samples, camera, events, frame range, views, and the names and layer collections of
  the view layers.
\<close>

definition same_setup :: "scene \<Rightarrow> scene \<Rightarrow> bool" where
  "same_setup sc sc' =
     (sc_samples sc' = sc_samples sc \<and> sc_camera sc' = sc_camera sc
      \<and> sc_events sc' = sc_events sc \<and> sc_frame_end sc' = sc_frame_end sc
      \<and> sc_views sc' = sc_views sc
      \<and> map vl_name (sc_view_layers sc') = map vl_name (sc_view_layers sc)
      \<and> map vl_layer_collection (sc_view_layers sc') = map vl_layer_collection (sc_view_layers sc))"

text \<open>
  The compositor tree that belongs to a list of view layers and a camera name: the three
  nodes of every layer in use, in layer order.
\<close>

definition expected_nodes :: "driver_context \<Rightarrow> string \<Rightarrow> view_layer list \<Rightarrow> compositor_node list" where
  "expected_nodes ctx cn layers =
     concat (map (\<lambda>i. layer_nodes ctx cn i (layers ! i))
               (filter (\<lambda>i. vl_use (layers ! i)) [0..<length layers]))"

text \<open>A render call made in the turn of the given camera, with that turn's settings.\<close>

definition good_render :: "driver_context \<Rightarrow> scene_object \<Rightarrow> render_call \<Rightarrow> bool" where
  "good_render ctx cam r =
     (rc_camera r = Some cam
      \<and> rc_samples r = (if camera_name_of cam = ''0'' then 4 else SAMPLES)
      \<and> rc_nodes r = expected_nodes ctx (camera_name_of cam) (rc_view_layers r))"

text \<open>The scene after the statements of a camera's turn that precede the layer loop.\<close>

definition turn_setup :: "driver_context \<Rightarrow> scene_object \<Rightarrow> scene \<Rightarrow> scene" where
  "turn_setup ctx camera sc =
     sc\<lparr>sc_samples := (if camera_name_of camera = ''0'' then 4 else SAMPLES),
        sc_views := views_loop (rev (sc_views sc)) (sc_views sc)
                      @ [\<lparr>rv_name = camera_name_of camera, rv_use = True\<rparr>],
        sc_camera := Some camera,
        sc_events := sc_events sc @ [Assign_camera camera],
        sc_frame_end := (case ob_frame_end camera of
                           None \<Rightarrow> ctx_default_frame_end ctx | Some v \<Rightarrow> v),
        sc_nodes := [], sc_links := []\<rparr>"

text \<open>What holds of every event of a run: it belongs to the turn of a camera that was not skipped.\<close>

fun event_ok :: "driver_context \<Rightarrow> event \<Rightarrow> bool" where
  "event_ok ctx (Assign_camera cam) = (\<not> not_importable cam \<and> \<not> filtered_out ctx cam)"
| "event_ok ctx (Render r) =
     (case rc_camera r of
        None \<Rightarrow> False
      | Some cam \<Rightarrow> \<not> not_importable cam \<and> \<not> filtered_out ctx cam \<and> good_render ctx cam r)"

section \<open>generate\_tunnel.py: the cleanup pass\<close>

text \<open>
  The part of \<^verbatim>\<open>bpy.data\<close> that \<^verbatim>\<open>clean_old\<close> reads and changes. Blender keeps the names
  of the data blocks of one kind distinct, so a data block is referred to by its name: a
  collection lists the names of the objects linked to it, an object names its mesh (if its
  data is a mesh), a mesh counts its users.
\<close>

record data_object =
  dob_name :: string
  dob_data :: "string option"

record data_collection =
  dc_name :: string
  dc_objects :: "string list"

record data_mesh =
  dm_name :: string
  dm_users :: nat

record blend_data =
  bd_collections :: "data_collection list"
  bd_objects :: "data_object list"
  bd_meshes :: "data_mesh list"
  bd_node_groups :: "string list"

text \<open>
  Blender's removal operations. Using a reference to a data block that has been removed
  raises \<^verbatim>\<open>ReferenceError\<close>. \<^verbatim>\<open>bpy.data.objects.remove(obj, do_unlink=True)\<close> deletes the
  object, unlinks it from every collection and releases its mesh (one user less).
\<close>

definition unlink_object :: "string \<Rightarrow> data_collection \<Rightarrow> data_collection" where
  "unlink_object n c = c\<lparr>dc_objects := filter (\<lambda>x. x \<noteq> n) (dc_objects c)\<rparr>"

definition release_mesh :: "string option \<Rightarrow> data_mesh \<Rightarrow> data_mesh" where
  "release_mesh d me =
     (if d = Some (dm_name me) then me\<lparr>dm_users := dm_users me - 1\<rparr> else me)"

definition objects_remove :: "string \<Rightarrow> blend_data \<Rightarrow> blend_data outcome" where
  "objects_remove n bd =
     (case find (\<lambda>ob. dob_name ob = n) (bd_objects bd) of
        None \<Rightarrow> Raised ReferenceError bd
      | Some ob \<Rightarrow>
          Ok (bd\<lparr>bd_objects := filter (\<lambda>x. dob_name x \<noteq> n) (bd_objects bd),
                 bd_collections := map (unlink_object n) (bd_collections bd),
                 bd_meshes := map (release_mesh (dob_data ob)) (bd_meshes bd)\<rparr>))"

definition collections_remove :: "string \<Rightarrow> blend_data \<Rightarrow> blend_data outcome" where
  "collections_remove n bd =
     (if n \<in> set (map dc_name (bd_collections bd))
      then Ok (bd\<lparr>bd_collections := filter (\<lambda>c. dc_name c \<noteq> n) (bd_collections bd)\<rparr>)
      else Raised ReferenceError bd)"

definition meshes_remove :: "string \<Rightarrow> blend_data \<Rightarrow> blend_data outcome" where
  "meshes_remove n bd =
     (if n \<in> set (map dm_name (bd_meshes bd))
      then Ok (bd\<lparr>bd_meshes := filter (\<lambda>me. dm_name me \<noteq> n) (bd_meshes bd)\<rparr>)
      else Raised ReferenceError bd)"

definition node_groups_remove :: "string \<Rightarrow> blend_data \<Rightarrow> blend_data outcome" where
  "node_groups_remove n bd =
     (if n \<in> set (bd_node_groups bd)
      then Ok (bd\<lparr>bd_node_groups := filter (\<lambda>g. g \<noteq> n) (bd_node_groups bd)\<rparr>)
      else Raised ReferenceError bd)"

text \<open>The denylist of \<^verbatim>\<open>clean_old\<close> and its test on an object's name.\<close>

definition kill_names :: "string list" where
  "kill_names =
     [''Segment (Regular)'',
      ''Segment (Key)'',
      ''Bolt Pocket (Top)'',
      ''Bolt Pocket (Bottom)'',
      ''Handle Hole (Top)'',
      ''Handle Hole (Bottom)'',
      ''Bolt Pocket'',
      ''Handle Hole'',
      ''Tunnel Controller'',
      ''TunnelRing'',
      ''SegReg'',
      ''SegKey'',
      ''RingGuide'',
      ''TBM_Ring'',
      ''RingBase'',
      ''TBM_Tunnel'']"

definition kill_match :: "string \<Rightarrow> bool" where
  "kill_match name =
     list_ex (\<lambda>n. name = n \<or> startswith name (n @ ''.'') \<or> startswith name (n @ ''_''))
       kill_names"

definition generated_collection :: "string \<Rightarrow> bool" where
  "generated_collection n = (n = ''TBM_Ring'' \<or> n = ''Tunnel'')"

definition generated_node_group :: "string \<Rightarrow> bool" where
  "generated_node_group n = (n = ''TBM_TunnelAlongZ'' \<or> n = ''TBM_TunnelProcedural'')"

text \<open>
  The loops of \<^verbatim>\<open>clean_old\<close>. Each runs over a snapshot (\<^verbatim>\<open>list(...)\<close>) taken when the loop
  starts; reading the name of a data block of the snapshot that is gone raises.
\<close>

fun remove_all_objects :: "string list \<Rightarrow> blend_data \<Rightarrow> blend_data outcome" where
  "remove_all_objects [] bd = Ok bd"
| "remove_all_objects (obj # objs) bd =
     (case objects_remove obj bd of
        Raised e bd' \<Rightarrow> Raised e bd'
      | Ok bd' \<Rightarrow> remove_all_objects objs bd')"

fun collections_loop :: "string list \<Rightarrow> blend_data \<Rightarrow> blend_data outcome" where
  "collections_loop [] bd = Ok bd"
| "collections_loop (coll # colls) bd =
     (case find (\<lambda>c. dc_name c = coll) (bd_collections bd) of
        None \<Rightarrow> Raised ReferenceError bd
      | Some c \<Rightarrow>
          if generated_collection (dc_name c)
          then
            (case remove_all_objects (dc_objects c) bd of
               Raised e bd' \<Rightarrow> Raised e bd'
             | Ok bd' \<Rightarrow>
                 (case collections_remove coll bd' of
                    Raised e bd'' \<Rightarrow> Raised e bd''
                  | Ok bd'' \<Rightarrow> collections_loop colls bd''))
          else collections_loop colls bd)"

fun objects_loop :: "string list \<Rightarrow> blend_data \<Rightarrow> blend_data outcome" where
  "objects_loop [] bd = Ok bd"
| "objects_loop (obj # objs) bd =
     (case find (\<lambda>ob. dob_name ob = obj) (bd_objects bd) of
        None \<Rightarrow> Raised ReferenceError bd
      | Some ob \<Rightarrow>
          if kill_match (dob_name ob)
          then
            (case objects_remove obj bd of
               Raised e bd' \<Rightarrow> Raised e bd'
             | Ok bd' \<Rightarrow> objects_loop objs bd')
          else objects_loop objs bd)"

fun meshes_loop :: "string list \<Rightarrow> blend_data \<Rightarrow> blend_data outcome" where
  "meshes_loop [] bd = Ok bd"
| "meshes_loop (me # mes) bd =
     (case find (\<lambda>m. dm_name m = me) (bd_meshes bd) of
        None \<Rightarrow> Raised ReferenceError bd
      | Some m \<Rightarrow>
          if dm_users m = 0
          then
            (case meshes_remove me bd of
               Raised e bd' \<Rightarrow> Raised e bd'
             | Ok bd' \<Rightarrow> meshes_loop mes bd')
          else meshes_loop mes bd)"

fun node_groups_loop :: "string list \<Rightarrow> blend_data \<Rightarrow> blend_data outcome" where
  "node_groups_loop [] bd = Ok bd"
| "node_groups_loop (ng # ngs) bd =
     (if ng \<notin> set (bd_node_groups bd) then Raised ReferenceError bd
      else if generated_node_group ng
      then
        (case node_groups_remove ng bd of
           Raised e bd' \<Rightarrow> Raised e bd'
         | Ok bd' \<Rightarrow> node_groups_loop ngs bd')
      else node_groups_loop ngs bd)"

definition clean_old :: "blend_data \<Rightarrow> blend_data outcome" where
  "clean_old bd =
     (case collections_loop (map dc_name (bd_collections bd)) bd of
        Raised e bd1 \<Rightarrow> Raised e bd1
      | Ok bd1 \<Rightarrow>
          (case objects_loop (map dob_name (bd_objects bd1)) bd1 of
             Raised e bd2 \<Rightarrow> Raised e bd2
           | Ok bd2 \<Rightarrow>
               (case meshes_loop (map dm_name (bd_meshes bd2)) bd2 of
                  Raised e bd3 \<Rightarrow> Raised e bd3
                | Ok bd3 \<Rightarrow> node_groups_loop (bd_node_groups bd3) bd3)))"

text \<open>
  What Blender guarantees of its data: names are distinct within a kind, and a collection
  lists each of its objects once and lists existing objects only.
\<close>

definition well_formed :: "blend_data \<Rightarrow> bool" where
  "well_formed bd =
     (distinct (map dc_name (bd_collections bd))
      \<and> distinct (map dob_name (bd_objects bd))
      \<and> distinct (map dm_name (bd_meshes bd))
      \<and> distinct (bd_node_groups bd)
      \<and> list_all (\<lambda>c. distinct (dc_objects c)
                    \<and> list_all (\<lambda>n. n \<in> set (map dob_name (bd_objects bd))) (dc_objects c))
           (bd_collections bd))"

text \<open>An object is linked to one of the two collections that the script generates.\<close>

definition in_generated_collection :: "blend_data \<Rightarrow> string \<Rightarrow> bool" where
  "in_generated_collection bd n =
     list_ex (\<lambda>c. generated_collection (dc_name c) \<and> n \<in> set (dc_objects c))
       (bd_collections bd)"

text \<open>
  Auxiliary notions for the proofs about the cleanup pass. Every collection keeps, of its
  links, those to the objects that satisfy a predicate.
\<close>

definition keep_linked :: "(string \<Rightarrow> bool) \<Rightarrow> data_collection list \<Rightarrow> data_collection list" where
  "keep_linked P cs = map (\<lambda>c. c\<lparr>dc_objects := filter P (dc_objects c)\<rparr>) cs"

text \<open>
  An object is linked to a generated collection among those named in the list (the part of
  the snapshot that the first loop visits).
\<close>

definition linked_to_generated :: "string list \<Rightarrow> data_collection list \<Rightarrow> string \<Rightarrow> bool" where
  "linked_to_generated cs colls n =
     list_ex (\<lambda>c. dc_name c \<in> set cs \<and> generated_collection (dc_name c) \<and> n \<in> set (dc_objects c))
       colls"

text \<open>
  A scene left behind by an earlier run that was interrupted, next to data of the user's
  own: the collection \<^verbatim>\<open>Tunnel\<close> holds a segment, a cutter and a helper; outside of it are
  a renamed copy of the controller, an old segment and a cutter that was moved out.
\<close>

definition example_data :: blend_data where
  "example_data =
     \<lparr> bd_collections =
         [\<lparr>dc_name = ''Collection'',
            dc_objects = [''Cube'', ''Tunnel Controller.001'', ''SegReg_old'',
                          ''Bolt Pocket (Back) - Key'']\<rparr>,
          \<lparr>dc_name = ''Tunnel'',
            dc_objects = [''Segment (Regular)'', ''Bolt Pocket (Front) - Regular'', ''Helper'']\<rparr>],
       bd_objects =
         [\<lparr>dob_name = ''Cube'', dob_data = Some ''Cube''\<rparr>,
          \<lparr>dob_name = ''Segment (Regular)'', dob_data = Some ''Segment (Regular)_Mesh''\<rparr>,
          \<lparr>dob_name = ''Bolt Pocket (Front) - Regular'', dob_data = Some ''Cylinder''\<rparr>,
          \<lparr>dob_name = ''Helper'', dob_data = Some ''Cube''\<rparr>,
          \<lparr>dob_name = ''Tunnel Controller.001'', dob_data = Some ''Cube.001''\<rparr>,
          \<lparr>dob_name = ''SegReg_old'', dob_data = None\<rparr>,
          \<lparr>dob_name = ''Bolt Pocket (Back) - Key'', dob_data = Some ''Cylinder.001''\<rparr>],
       bd_meshes =
         [\<lparr>dm_name = ''Cube'', dm_users = 2\<rparr>,
          \<lparr>dm_name = ''Segment (Regular)_Mesh'', dm_users = 1\<rparr>,
          \<lparr>dm_name = ''Cylinder'', dm_users = 1\<rparr>,
          \<lparr>dm_name = ''Cube.001'', dm_users = 1\<rparr>,
          \<lparr>dm_name = ''Cylinder.001'', dm_users = 1\<rparr>,
          \<lparr>dm_name = ''TunnelController_Mesh'', dm_users = 0\<rparr>],
       bd_node_groups = [''TBM_TunnelProcedural'', ''Geometry Nodes''] \<rparr>"

definition cleaned_data :: blend_data where
  "cleaned_data =
     \<lparr> bd_collections =
         [\<lparr>dc_name = ''Collection'',
            dc_objects = [''Cube'', ''Bolt Pocket (Back) - Key'']\<rparr>],
       bd_objects =
         [\<lparr>dob_name = ''Cube'', dob_data = Some ''Cube''\<rparr>,
          \<lparr>dob_name = ''Bolt Pocket (Back) - Key'', dob_data = Some ''Cylinder.001''\<rparr>],
       bd_meshes =
         [\<lparr>dm_name = ''Cube'', dm_users = 1\<rparr>,
          \<lparr>dm_name = ''Cylinder.001'', dm_users = 1\<rparr>],
       bd_node_groups = [''Geometry Nodes''] \<rparr>"

section \<open>Properties\<close>

subsection \<open>Derived angles\<close>

lemma full_turn_cancel: "(0::real) < d \<Longrightarrow> d * (360 / d) = 360"
  by simp

lemma regular_angle_deg_Inr:
  assumes "real_of_int (regular_count s) + key_angle_factor s \<noteq> 0"
  shows "regular_angle_deg s = Inr (360 / (real_of_int (regular_count s) + key_angle_factor s))"
  using assms by (simp add: regular_angle_deg_def Let_def)

text \<open>
  Claim C1. For every \<open>regular_count \<ge> 1\<close> and \<open>key_angle_factor > 0\<close> both angles are
  computed (no division by zero), the regular angle is \<open>360 / (regular_count + key_angle_factor)\<close>,
  the key angle is \<open>key_angle_factor\<close> times the regular angle, and
  \<open>regular_count * regular_angle + key_angle = 360\<close> exactly (over the reals).
\<close>

theorem angles_close_circle:
  assumes "1 \<le> regular_count s" and "0 < key_angle_factor s"
  shows "\<exists>ra ka. regular_angle_deg s = Inr ra \<and> key_angle_deg s = Inr ka
           \<and> ra = 360 / (real_of_int (regular_count s) + key_angle_factor s)
           \<and> ka = key_angle_factor s * ra
           \<and> real_of_int (regular_count s) * ra + ka = 360"
proof -
  let ?d = "real_of_int (regular_count s) + key_angle_factor s"
  from assms have pos: "0 < ?d" by simp
  then have ra: "regular_angle_deg s = Inr (360 / ?d)"
    by (simp add: regular_angle_deg_Inr)
  then have ka: "key_angle_deg s = Inr (key_angle_factor s * (360 / ?d))"
    by (simp add: key_angle_deg_def mult.commute)
  have "real_of_int (regular_count s) * (360 / ?d) + key_angle_factor s * (360 / ?d)
          = ?d * (360 / ?d)"
    by (simp only: distrib_right)
  also from pos have "\<dots> = 360" by (rule full_turn_cancel)
  finally show ?thesis using ra ka by simp
qed

theorem angles_close_circle_witness:
  "regular_angle_deg user_settings = Inr (450 / 7)
     \<and> key_angle_deg user_settings = Inr (270 / 7)
     \<and> real_of_int (regular_count user_settings) * (450 / 7) + 270 / 7 = 360"
proof -
  have h1: "1 \<le> regular_count user_settings" by (simp add: user_settings_def)
  have h2: "0 < key_angle_factor user_settings" by (simp add: user_settings_def)
  from angles_close_circle [OF h1 h2] show ?thesis
    by (auto simp: user_settings_def)
qed

subsection \<open>Segment mesh builder\<close>

lemma py_round_examples:
  "py_round (5 / 2) = 2" "py_round (7 / 2) = 4" "py_round (- 5 / 2) = - 2"
  "py_round (8 / 3) = 3" "py_round (7 / 3) = 2"
  by (simp_all add: py_round_def Let_def)

lemma length_verts_loop:
  "length (verts_loop s a steps is verts) = length verts + 4 * length is"
  by (induction "is" arbitrary: verts) (simp_all add: step_verts_def Let_def)

lemma length_faces_loop:
  "length (faces_loop is faces) = length faces + 4 * length is"
  by (induction "is" arbitrary: faces) (simp_all add: step_faces_def Let_def)

lemma segment_steps_ge_8: "8 \<le> segment_steps s a"
  by (simp add: segment_steps_def)

text \<open>
  Claim C2. For every arc angle \<open>A\<close> the builder's step count is
  \<open>max 8 (round (full_circle_res * A / 360))\<close>, with Python's rounding, and the mesh it
  returns has exactly \<open>4 * (steps + 1)\<close> vertices.
\<close>

theorem segment_vertex_count:
  "segment_steps s A = max 8 (py_round (real_of_int (full_circle_res s) * A / 360))
   \<and> int (length (md_verts (so_mesh (make_segment_mesh s name A))))
       = 4 * (max 8 (py_round (real_of_int (full_circle_res s) * A / 360)) + 1)"
proof -
  have "8 \<le> segment_steps s A" by (rule segment_steps_ge_8)
  then have "int (length [0..segment_steps s A]) = segment_steps s A + 1" by simp
  then show ?thesis
    by (simp add: make_segment_mesh_def Let_def length_verts_loop segment_steps_def)
qed

theorem segment_vertex_count_witness:
  "segment_steps user_settings (450 / 7) = 23
   \<and> int (length (md_verts (so_mesh
         (make_segment_mesh user_settings ''Segment (Regular)'' (450 / 7))))) = 96"
  using segment_vertex_count [of user_settings "450 / 7" "''Segment (Regular)''"]
  by (simp add: user_settings_def py_round_def Let_def)

subsection \<open>Ring assembly: instance rotations\<close>

lemma build_ring_ok:
  assumes "1 \<le> regular_count s" and "0 < key_angle_factor s"
  shows "build_ring s =
     Inr \<lparr> ring_regular_angle = 360 / (real_of_int (regular_count s) + key_angle_factor s),
           ring_key_angle = 360 / (real_of_int (regular_count s) + key_angle_factor s) * key_angle_factor s,
           ring_inst_reg = inst_reg s (360 / (real_of_int (regular_count s) + key_angle_factor s)),
           ring_inst_key = inst_key s (360 / (real_of_int (regular_count s) + key_angle_factor s))
              (360 / (real_of_int (regular_count s) + key_angle_factor s) * key_angle_factor s) \<rparr>"
proof -
  from assms have "real_of_int (regular_count s) + key_angle_factor s \<noteq> 0" by simp
  then show ?thesis
    by (simp add: build_ring_def key_angle_deg_def regular_angle_deg_Inr)
qed

lemma eval_angle_reg: "eval_scalar (angle_reg ra) i = (real i + 1 / 2) * radians ra"
  by (simp add: angle_reg_def add_half_def)

lemma regular_rotations_inst_reg:
  "map rotation_y (instance_rotations (inst_reg s ra))
     = map (\<lambda>i. radians ((real i + 1 / 2) * ra)) [0..<nat (regular_count s)]"
  by (simp add: instance_rotations_def inst_reg_def rot_vec_reg_def eval_vector_def
      rotation_y_def eval_angle_reg radians_def comp_def)

lemma upt_5: "[0..<5] = [0, 1, 2, 3, 4]"
  by (simp add: upt_rec)

lemma radians_mono: "a < b \<Longrightarrow> radians a < radians b"
  by (simp add: radians_def)

lemma half_steps_increasing:
  assumes "0 < ra"
  shows "sorted_wrt (<) (map (\<lambda>i. radians ((real i + 1 / 2) * ra)) [0..<n])"
proof -
  have "sorted_wrt (<) [0..<n]" by simp
  then have "sorted_wrt (\<lambda>i j. radians ((real i + 1 / 2) * ra) < radians ((real j + 1 / 2) * ra)) [0..<n]"
    by (rule sorted_wrt_mono_rel [rotated]) (use assms in \<open>simp add: radians_def\<close>)
  then show ?thesis by (simp add: sorted_wrt_map)
qed

lemma five_arcs_span:
  "radians ((0 + 1 / 2) * ra) - radians ra / 2 = 0"
  "radians ((4 + 1 / 2) * ra) + radians ra / 2 = radians (5 * ra)"
  by (simp_all add: radians_def)

text \<open>
  Claim C5. With \<open>regular_count = 5\<close> (and a positive \<open>key_angle_factor\<close>, as shipped) the
  graph is built, and the rotation about the tunnel axis of the regular instance with index
  \<open>i\<close> is \<open>(i + 1/2) * regular_angle\<close> for \<open>i = 0, \<dots>, 4\<close> (the node stores radians). The
  five angles are strictly increasing. Each segment arc reaches half a regular angle to
  either side of its rotation, so the five arcs run from angle 0 (lower edge of the first)
  to \<open>5 * regular_angle\<close> (upper edge of the last).
\<close>

theorem regular_instance_angles:
  assumes "regular_count s = 5" and "0 < key_angle_factor s"
  shows "\<exists>r. build_ring s = Inr r
     \<and> regular_angle_deg s = Inr (ring_regular_angle r)
     \<and> regular_rotations r =
         [radians ((0 + 1 / 2) * ring_regular_angle r),
          radians ((1 + 1 / 2) * ring_regular_angle r),
          radians ((2 + 1 / 2) * ring_regular_angle r),
          radians ((3 + 1 / 2) * ring_regular_angle r),
          radians ((4 + 1 / 2) * ring_regular_angle r)]
     \<and> sorted_wrt (<) (regular_rotations r)
     \<and> hd (regular_rotations r) - radians (ring_regular_angle r) / 2 = 0
     \<and> last (regular_rotations r) + radians (ring_regular_angle r) / 2
         = radians (5 * ring_regular_angle r)"
proof -
  define ra where "ra = 360 / (real_of_int (regular_count s) + key_angle_factor s)"
  define r where "r = \<lparr> ring_regular_angle = ra, ring_key_angle = ra * key_angle_factor s,
     ring_inst_reg = inst_reg s ra, ring_inst_key = inst_key s ra (ra * key_angle_factor s) \<rparr>"
  from assms have rc: "1 \<le> regular_count s" by simp
  from assms have pos: "0 < ra" by (simp add: ra_def)
  have br: "build_ring s = Inr r"
    using build_ring_ok [OF rc assms(2)] by (simp add: r_def ra_def)
  have ra: "regular_angle_deg s = Inr (ring_regular_angle r)"
    using rc assms(2) by (simp add: regular_angle_deg_Inr r_def ra_def)
  have rots: "regular_rotations r = map (\<lambda>i. radians ((real i + 1 / 2) * ra)) [0..<5]"
    using assms(1) by (simp add: r_def regular_rotations_def regular_rotations_inst_reg)
  have inc: "sorted_wrt (<) (regular_rotations r)"
    unfolding rots using pos by (rule half_steps_increasing)
  have list: "regular_rotations r =
         [radians ((0 + 1 / 2) * ra), radians ((1 + 1 / 2) * ra), radians ((2 + 1 / 2) * ra),
          radians ((3 + 1 / 2) * ra), radians ((4 + 1 / 2) * ra)]"
    unfolding rots by (simp add: upt_5)
  have sel: "ring_regular_angle r = ra" by (simp add: r_def)
  have first: "hd (regular_rotations r) - radians ra / 2 = 0"
    unfolding list using five_arcs_span(1) [of ra] by simp
  have lst: "last (regular_rotations r) + radians ra / 2 = radians (5 * ra)"
    unfolding list using five_arcs_span(2) [of ra] by simp
  show ?thesis
  proof (intro exI conjI)
    show "build_ring s = Inr r" by (rule br)
    show "regular_angle_deg s = Inr (ring_regular_angle r)" by (rule ra)
    show "regular_rotations r =
         [radians ((0 + 1 / 2) * ring_regular_angle r),
          radians ((1 + 1 / 2) * ring_regular_angle r),
          radians ((2 + 1 / 2) * ring_regular_angle r),
          radians ((3 + 1 / 2) * ring_regular_angle r),
          radians ((4 + 1 / 2) * ring_regular_angle r)]"
      unfolding sel by (rule list)
    show "sorted_wrt (<) (regular_rotations r)" by (rule inc)
    show "hd (regular_rotations r) - radians (ring_regular_angle r) / 2 = 0"
      unfolding sel by (rule first)
    show "last (regular_rotations r) + radians (ring_regular_angle r) / 2
         = radians (5 * ring_regular_angle r)"
      unfolding sel by (rule lst)
  qed
qed

theorem regular_instance_angles_witness:
  "build_ring user_settings \<noteq> Inl ZeroDivisionError \<and>
   regular_rotations (projr (build_ring user_settings)) =
     [radians (225 / 7), radians (675 / 7), radians (1125 / 7), radians (225), radians (2025 / 7)]"
proof -
  have h1: "regular_count user_settings = 5" by (simp add: user_settings_def)
  have h2: "0 < key_angle_factor user_settings" by (simp add: user_settings_def)
  from regular_instance_angles [OF h1 h2] obtain r where
    r: "build_ring user_settings = Inr r" "regular_angle_deg user_settings = Inr (ring_regular_angle r)"
     "regular_rotations r =
         [radians ((0 + 1 / 2) * ring_regular_angle r),
          radians ((1 + 1 / 2) * ring_regular_angle r),
          radians ((2 + 1 / 2) * ring_regular_angle r),
          radians ((3 + 1 / 2) * ring_regular_angle r),
          radians ((4 + 1 / 2) * ring_regular_angle r)]" by blast
  have "regular_angle_deg user_settings = Inr (450 / 7)"
    by (simp add: regular_angle_deg_def user_settings_def)
  with r(2) have "ring_regular_angle r = 450 / 7" by simp
  with r(1,3) show ?thesis by simp
qed

lemma key_rotations_inst_key:
  "map rotation_y (instance_rotations (inst_key s ra ka)) = [key_rot_angle s ra ka]"
  by (simp add: instance_rotations_def inst_key_def rot_vec_key_def eval_vector_def rotation_y_def)

lemma last_regular_rotation:
  assumes "1 \<le> regular_count s"
  shows "map rotation_y (instance_rotations (inst_reg s ra)) \<noteq> []"
    and "last (map rotation_y (instance_rotations (inst_reg s ra)))
           = radians ((real_of_int (regular_count s) - 1 + 1 / 2) * ra)"
proof -
  from assms have n: "0 < nat (regular_count s)" by simp
  then have ne: "[0..<nat (regular_count s)] \<noteq> []" by simp
  show "map rotation_y (instance_rotations (inst_reg s ra)) \<noteq> []"
    using ne by (simp add: regular_rotations_inst_reg)
  have "real (nat (regular_count s) - 1) = real_of_int (regular_count s) - 1"
    using assms by (simp add: of_nat_diff)
  then show "last (map rotation_y (instance_rotations (inst_reg s ra)))
           = radians ((real_of_int (regular_count s) - 1 + 1 / 2) * ra)"
    using ne n by (simp add: regular_rotations_inst_reg last_map)
qed

lemma key_edge_meets_last_regular:
  "radians (n * ra + ka / 2) - radians ka / 2 = radians ((n - 1 + 1 / 2) * ra) + radians ra / 2"
  by (simp add: radians_def field_simps)

text \<open>
  Claim C6. For \<open>regular_count \<ge> 1\<close> and a positive \<open>key_angle_factor\<close> the single key
  instance is rotated by \<open>regular_count * regular_angle + key_angle / 2\<close>. Its lower edge
  (rotation minus half the key angle) is the upper edge of the last regular segment
  (rotation plus half the regular angle); both arcs have positive width, so they touch
  in that edge and do not overlap.
\<close>

theorem key_instance_adjacent:
  assumes "1 \<le> regular_count s" and "0 < key_angle_factor s"
  shows "\<exists>r. build_ring s = Inr r
     \<and> key_rotations r =
         [radians (real_of_int (regular_count s) * ring_regular_angle r + ring_key_angle r / 2)]
     \<and> regular_rotations r \<noteq> []
     \<and> hd (key_rotations r) - radians (ring_key_angle r) / 2
         = last (regular_rotations r) + radians (ring_regular_angle r) / 2
     \<and> last (regular_rotations r) - radians (ring_regular_angle r) / 2
         < hd (key_rotations r) - radians (ring_key_angle r) / 2
     \<and> hd (key_rotations r) - radians (ring_key_angle r) / 2
         < hd (key_rotations r) + radians (ring_key_angle r) / 2"
proof -
  define ra where "ra = 360 / (real_of_int (regular_count s) + key_angle_factor s)"
  define ka where "ka = ra * key_angle_factor s"
  define r where "r = \<lparr> ring_regular_angle = ra, ring_key_angle = ka,
     ring_inst_reg = inst_reg s ra, ring_inst_key = inst_key s ra ka \<rparr>"
  from assms have ra_pos: "0 < ra" by (simp add: ra_def)
  with assms(2) have ka_pos: "0 < ka" by (simp add: ka_def)
  have br: "build_ring s = Inr r"
    using build_ring_ok [OF assms] by (simp add: r_def ra_def ka_def)
  have sel: "ring_regular_angle r = ra" "ring_key_angle r = ka" by (simp_all add: r_def)
  have key: "key_rotations r = [radians (real_of_int (regular_count s) * ra + ka / 2)]"
    by (simp add: r_def key_rotations_def key_rotations_inst_key key_rot_angle_def)
  have ne: "regular_rotations r \<noteq> []"
    using last_regular_rotation(1) [OF assms(1)] by (simp add: r_def regular_rotations_def)
  have lst: "last (regular_rotations r)
           = radians ((real_of_int (regular_count s) - 1 + 1 / 2) * ra)"
    using last_regular_rotation(2) [OF assms(1)] by (simp add: r_def regular_rotations_def)
  have meet: "hd (key_rotations r) - radians ka / 2 = last (regular_rotations r) + radians ra / 2"
    unfolding key lst using key_edge_meets_last_regular [of "real_of_int (regular_count s)" ra ka]
    by simp
  have below: "last (regular_rotations r) - radians ra / 2 < hd (key_rotations r) - radians ka / 2"
    unfolding meet using ra_pos by (simp add: radians_def)
  have above: "hd (key_rotations r) - radians ka / 2 < hd (key_rotations r) + radians ka / 2"
    using ka_pos by (simp add: radians_def)
  show ?thesis
  proof (intro exI conjI)
    show "build_ring s = Inr r" by (rule br)
    show "key_rotations r =
         [radians (real_of_int (regular_count s) * ring_regular_angle r + ring_key_angle r / 2)]"
      unfolding sel by (rule key)
    show "regular_rotations r \<noteq> []" by (rule ne)
    show "hd (key_rotations r) - radians (ring_key_angle r) / 2
         = last (regular_rotations r) + radians (ring_regular_angle r) / 2"
      unfolding sel by (rule meet)
    show "last (regular_rotations r) - radians (ring_regular_angle r) / 2
         < hd (key_rotations r) - radians (ring_key_angle r) / 2"
      unfolding sel by (rule below)
    show "hd (key_rotations r) - radians (ring_key_angle r) / 2
         < hd (key_rotations r) + radians (ring_key_angle r) / 2"
      unfolding sel by (rule above)
  qed
qed

theorem key_instance_adjacent_witness:
  "key_rotations (projr (build_ring user_settings)) = [radians (2385 / 7)]
   \<and> last (regular_rotations (projr (build_ring user_settings))) + radians (450 / 7) / 2
       = radians (2385 / 7) - radians (270 / 7) / 2"
proof -
  have h1: "1 \<le> regular_count user_settings" by (simp add: user_settings_def)
  have h2: "0 < key_angle_factor user_settings" by (simp add: user_settings_def)
  from key_instance_adjacent [OF h1 h2] obtain r where
    r: "build_ring user_settings = Inr r"
     "key_rotations r =
         [radians (real_of_int (regular_count user_settings) * ring_regular_angle r + ring_key_angle r / 2)]"
     "hd (key_rotations r) - radians (ring_key_angle r) / 2
         = last (regular_rotations r) + radians (ring_regular_angle r) / 2" by blast
  have "build_ring user_settings = Inr \<lparr> ring_regular_angle = 450 / 7, ring_key_angle = 270 / 7,
     ring_inst_reg = inst_reg user_settings (450 / 7),
     ring_inst_key = inst_key user_settings (450 / 7) (270 / 7) \<rparr>"
    by (simp add: build_ring_def regular_angle_deg_def key_angle_deg_def user_settings_def)
  with r(1) have "ring_regular_angle r = 450 / 7" "ring_key_angle r = 270 / 7" by auto
  with r show ?thesis by (simp add: user_settings_def)
qed

subsection \<open>Controller inputs\<close>

lemma assign_inputs_items:
  "assign_inputs h socks kvs m = Ok m' \<Longrightarrow>
     mod_items m' = mod_items m @ map (\<lambda>(k, v). (sock_identifier (socks ! k), v)) kvs
     \<and> list_all (\<lambda>(k, v). k < length socks \<and> h (sock_identifier (socks ! k)) v = None) kvs"
  by (induction h socks kvs m rule: assign_inputs.induct)
     (auto split: if_splits option.splits)

lemma assign_inputs_accepts:
  "list_all (\<lambda>(k, v). k < length socks \<and> h (sock_identifier (socks ! k)) v = None) kvs
     \<Longrightarrow> \<exists>m'. assign_inputs h socks kvs m = Ok m'"
  by (induction h socks kvs m rule: assign_inputs.induct) auto

lemma try_block_Ok_iff:
  "(\<exists>m'. try_block h items s reg key m = Ok m') =
     (7 \<le> length (input_sockets items)
      \<and> list_all (\<lambda>(k, v). h (sock_identifier (input_sockets items ! k)) v = None)
           (controller_values s reg key))"
proof
  assume "\<exists>m'. try_block h items s reg key m = Ok m'"
  then obtain m' where "assign_inputs h (input_sockets items) (controller_values s reg key) m = Ok m'"
    by (auto simp: try_block_def)
  from assign_inputs_items [OF this]
  show "7 \<le> length (input_sockets items)
      \<and> list_all (\<lambda>(k, v). h (sock_identifier (input_sockets items ! k)) v = None)
           (controller_values s reg key)"
    by (simp add: controller_values_def)
next
  assume "7 \<le> length (input_sockets items)
      \<and> list_all (\<lambda>(k, v). h (sock_identifier (input_sockets items ! k)) v = None)
           (controller_values s reg key)"
  then have "list_all (\<lambda>(k, v). k < length (input_sockets items)
        \<and> h (sock_identifier (input_sockets items ! k)) v = None) (controller_values s reg key)"
    by (auto simp: controller_values_def)
  from assign_inputs_accepts [OF this]
  show "\<exists>m'. try_block h items s reg key m = Ok m'"
    by (simp add: try_block_def)
qed

lemma try_block_Ok_items:
  assumes "try_block h items s reg key m = Ok m'"
  shows "mod_items m' = mod_items m @
           [(sock_identifier (input_sockets items ! 0), ObjectRef reg),
            (sock_identifier (input_sockets items ! 1), ObjectRef key),
            (sock_identifier (input_sockets items ! 2), IntValue (gn_ring_count s)),
            (sock_identifier (input_sockets items ! 3), FloatValue (gn_ring_spacing s)),
            (sock_identifier (input_sockets items ! 4), IntValue (gn_rot_jitter_deg s)),
            (sock_identifier (input_sockets items ! 5), FloatValue (gn_pos_jitter s)),
            (sock_identifier (input_sockets items ! 6), IntValue (gn_seed s))]"
  using assign_inputs_items [OF assms [unfolded try_block_def]]
  by (simp add: controller_values_def)

text \<open>
  Claim C9. Whatever the interface looks like and whichever write the host refuses, the
  guarded block does not end the run: the script goes on to its closing report. When a
  statement of the block raises \<open>e\<close>, the warning for \<open>e\<close> is printed (and the success line
  is not) and the writes made so far stay. When none raises, the seven values are written
  to the first seven input sockets in interface order and the success line is printed.
  The block succeeds exactly when there are at least seven input sockets and the host
  accepts each of the seven writes.
\<close>

theorem controller_assignment_guarded:
  "\<exists>st'. finish_generation h items s reg key st = Ok st'
     \<and> (case try_block h items s reg key (cs_modifier st) of
          Raised e m \<Rightarrow>
            cs_modifier st' = m
            \<and> cs_console st' = cs_console st @ [Could_not_auto_assign e, DONE]
        | Ok m \<Rightarrow>
            cs_modifier st' = m
            \<and> cs_console st' = cs_console st @ [Modifier_inputs_assigned, DONE]
            \<and> mod_items m = mod_items (cs_modifier st) @
                [(sock_identifier (input_sockets items ! 0), ObjectRef reg),
                 (sock_identifier (input_sockets items ! 1), ObjectRef key),
                 (sock_identifier (input_sockets items ! 2), IntValue (gn_ring_count s)),
                 (sock_identifier (input_sockets items ! 3), FloatValue (gn_ring_spacing s)),
                 (sock_identifier (input_sockets items ! 4), IntValue (gn_rot_jitter_deg s)),
                 (sock_identifier (input_sockets items ! 5), FloatValue (gn_pos_jitter s)),
                 (sock_identifier (input_sockets items ! 6), IntValue (gn_seed s))])
     \<and> ((\<exists>m. try_block h items s reg key (cs_modifier st) = Ok m) =
          (7 \<le> length (input_sockets items)
           \<and> list_all (\<lambda>(k, v). h (sock_identifier (input_sockets items ! k)) v = None)
                (controller_values s reg key)))"
proof (cases "try_block h items s reg key (cs_modifier st)")
  case (Ok m)
  note items = try_block_Ok_items [OF Ok]
  show ?thesis
    using Ok items try_block_Ok_iff [of h items s reg key "cs_modifier st"]
    by (simp add: finish_generation_def set_inputs_def)
next
  case (Raised e m)
  show ?thesis
    using Raised try_block_Ok_iff [of h items s reg key "cs_modifier st"]
    by (simp add: finish_generation_def set_inputs_def)
qed

theorem controller_assignment_guarded_witness:
  "finish_generation (\<lambda>k v. None) (tunnel_interface blender_identifier) user_settings
      ''Segment (Regular)'' ''Segment (Key)''
      \<lparr> cs_modifier = \<lparr> mod_name = ''TunnelProcedural'', mod_node_group = ''TBM_TunnelProcedural'',
                         mod_items = [] \<rparr>, cs_console = [] \<rparr>
   = Ok \<lparr> cs_modifier = \<lparr> mod_name = ''TunnelProcedural'', mod_node_group = ''TBM_TunnelProcedural'',
                         mod_items = [(''Socket_0'', ObjectRef ''Segment (Regular)''),
                           (''Socket_1'', ObjectRef ''Segment (Key)''),
                           (''Socket_2'', IntValue 10),
                           (''Socket_3'', FloatValue (15 / 10)),
                           (''Socket_4'', IntValue 40),
                           (''Socket_5'', FloatValue (1 / 100)),
                           (''Socket_6'', IntValue 27)] \<rparr>,
           cs_console = [Modifier_inputs_assigned, DONE] \<rparr>
   \<and> finish_generation (\<lambda>k v. if k = ''Socket_2'' then Some TypeError else None)
      (tunnel_interface blender_identifier) user_settings
      ''Segment (Regular)'' ''Segment (Key)''
      \<lparr> cs_modifier = \<lparr> mod_name = ''TunnelProcedural'', mod_node_group = ''TBM_TunnelProcedural'',
                         mod_items = [] \<rparr>, cs_console = [] \<rparr>
   = Ok \<lparr> cs_modifier = \<lparr> mod_name = ''TunnelProcedural'', mod_node_group = ''TBM_TunnelProcedural'',
                         mod_items = [(''Socket_0'', ObjectRef ''Segment (Regular)''),
                           (''Socket_1'', ObjectRef ''Segment (Key)'')] \<rparr>,
           cs_console = [Could_not_auto_assign TypeError, DONE] \<rparr>"
  using controller_assignment_guarded [of "\<lambda>k v. None" "tunnel_interface blender_identifier"
      user_settings "''Segment (Regular)''" "''Segment (Key)''"
      "\<lparr> cs_modifier = \<lparr> mod_name = ''TunnelProcedural'', mod_node_group = ''TBM_TunnelProcedural'',
                         mod_items = [] \<rparr>, cs_console = [] \<rparr>"]
    controller_assignment_guarded [of "\<lambda>k v. if k = ''Socket_2'' then Some TypeError else None"
      "tunnel_interface blender_identifier"
      user_settings "''Segment (Regular)''" "''Segment (Key)''"
      "\<lparr> cs_modifier = \<lparr> mod_name = ''TunnelProcedural'', mod_node_group = ''TBM_TunnelProcedural'',
                         mod_items = [] \<rparr>, cs_console = [] \<rparr>"]
  by (simp add: finish_generation_def set_inputs_def try_block_def controller_values_def
      tunnel_interface_def input_sockets_def make_in_def make_out_def new_socket_def
      user_settings_def blender_identifier_def)

subsection \<open>Render driver: what the loops preserve\<close>

lemma same_setup_refl: "same_setup sc sc"
  by (simp add: same_setup_def)

lemma same_setup_trans: "same_setup a b \<Longrightarrow> same_setup b c \<Longrightarrow> same_setup a c"
  by (simp add: same_setup_def)

lemma map_update_same:
  assumes "f v = f (xs ! i)"
  shows "map f (xs[i := v]) = map f xs"
proof (cases "i < length xs")
  case True
  with assms have "(map f xs)[i := f v] = (map f xs)[i := map f xs ! i]" by simp
  then show ?thesis by (simp only: map_update list_update_id)
next
  case False
  then have "xs[i := v] = xs" by (simp add: list_update_beyond not_less)
  then show ?thesis by simp
qed

lemma process_layer_same_setup:
  "same_setup sc (state_of (process_layer ctx cn cam i sc))"
  by (simp add: process_layer_def state_of_def same_setup_def Let_def map_update_same
      split: list.splits option.splits)

lemma layer_loop_same_setup:
  "same_setup sc (state_of (layer_loop ctx cn cam is sc))"
proof (induction "is" arbitrary: sc)
  case Nil
  show ?case by (simp add: state_of_def same_setup_refl)
next
  case (Cons i "is")
  show ?case
  proof (cases "process_layer ctx cn cam i sc")
    case (Ok sc1)
    with process_layer_same_setup [of sc ctx cn cam i] have "same_setup sc sc1"
      by (simp add: state_of_def)
    with Cons.IH [of sc1] Ok show ?thesis
      by (auto intro: same_setup_trans)
  next
    case (Raised e sc1)
    with process_layer_same_setup [of sc ctx cn cam i] show ?thesis
      by (simp add: state_of_def)
  qed
qed

lemma process_layer_Ok:
  assumes "process_layer ctx cn cam i sc = Ok sc1" and "i < length (sc_view_layers sc)"
  shows "length (sc_view_layers sc1) = length (sc_view_layers sc)"
    and "\<And>j. j \<noteq> i \<Longrightarrow> sc_view_layers sc1 ! j = sc_view_layers sc ! j"
    and "sc_nodes sc1 = sc_nodes sc @
           (if vl_use (sc_view_layers sc1 ! i) then layer_nodes ctx cn i (sc_view_layers sc1 ! i)
            else [])"
  using assms
  by (auto simp: process_layer_def Let_def layer_nodes_def image_path_def mist_path_def
      layer_prefix_def split: list.splits option.splits if_splits)

lemma layer_loop_nodes:
  assumes "layer_loop ctx cn cam is sc = Ok sc'" and "distinct is"
    and "\<forall>i\<in>set is. i < length (sc_view_layers sc)"
  shows "length (sc_view_layers sc') = length (sc_view_layers sc)
     \<and> (\<forall>j. j \<notin> set is \<longrightarrow> sc_view_layers sc' ! j = sc_view_layers sc ! j)
     \<and> sc_nodes sc' = sc_nodes sc @
         concat (map (\<lambda>i. layer_nodes ctx cn i (sc_view_layers sc' ! i))
                   (filter (\<lambda>i. vl_use (sc_view_layers sc' ! i)) is))"
  using assms
proof (induction "is" arbitrary: sc)
  case Nil
  then show ?case by simp
next
  case (Cons i "is")
  from Cons.prems(1) obtain sc1 where
    step: "process_layer ctx cn cam i sc = Ok sc1" and
    rest: "layer_loop ctx cn cam is sc1 = Ok sc'"
    by (auto split: outcome.splits)
  from Cons.prems(3) have i: "i < length (sc_view_layers sc)" by simp
  note p = process_layer_Ok [OF step i]
  from Cons.prems(2) have d: "distinct is" and ni: "i \<notin> set is" by simp_all
  from Cons.prems(3) p(1) have b: "\<forall>k\<in>set is. k < length (sc_view_layers sc1)" by simp
  from Cons.IH [OF rest d b] have
    ih1: "length (sc_view_layers sc') = length (sc_view_layers sc1)" and
    ih2: "\<forall>j. j \<notin> set is \<longrightarrow> sc_view_layers sc' ! j = sc_view_layers sc1 ! j" and
    ih3: "sc_nodes sc' = sc_nodes sc1 @
         concat (map (\<lambda>i. layer_nodes ctx cn i (sc_view_layers sc' ! i))
                   (filter (\<lambda>i. vl_use (sc_view_layers sc' ! i)) is))"
    by simp_all
  from ih2 ni have same_i: "sc_view_layers sc' ! i = sc_view_layers sc1 ! i" by simp
  have "\<forall>j. j \<notin> set (i # is) \<longrightarrow> sc_view_layers sc' ! j = sc_view_layers sc ! j"
    using ih2 p(2) by simp
  moreover have "sc_nodes sc' = sc_nodes sc @
         concat (map (\<lambda>i. layer_nodes ctx cn i (sc_view_layers sc' ! i))
                   (filter (\<lambda>i. vl_use (sc_view_layers sc' ! i)) (i # is)))"
    using ih3 p(3) same_i by simp
  ultimately show ?case using ih1 p(1) by simp
qed

lemma layer_loop_all_nodes:
  assumes "layer_loop ctx cn cam [0..<length (sc_view_layers sc)] sc = Ok sc'"
    and "sc_nodes sc = []"
  shows "sc_nodes sc' = expected_nodes ctx cn (sc_view_layers sc')"
proof -
  have "distinct [0..<length (sc_view_layers sc)]" by simp
  moreover have "\<forall>i\<in>set [0..<length (sc_view_layers sc)]. i < length (sc_view_layers sc)" by simp
  ultimately show ?thesis
    using layer_loop_nodes [OF assms(1)] assms(2) by (simp add: expected_nodes_def)
qed

lemma process_camera_skipped:
  "not_importable cam \<or> filtered_out ctx cam \<Longrightarrow> process_camera ctx cam sc = Ok sc"
  by (auto simp: process_camera_def Let_def)

lemma process_camera_unfold:
  assumes "\<not> not_importable cam" and "\<not> filtered_out ctx cam"
  shows "process_camera ctx cam sc =
     (case layer_loop ctx (camera_name_of cam) cam [0..<length (sc_view_layers sc)]
             (turn_setup ctx cam sc) of
        Raised e sc' \<Rightarrow> Raised e sc'
      | Ok sc' \<Rightarrow> Ok (render sc'))"
  using assms by (simp add: process_camera_def Let_def turn_setup_def)

lemma process_camera_turn:
  assumes "\<not> not_importable cam" and "\<not> filtered_out ctx cam"
  shows "(\<exists>e sc'. process_camera ctx cam sc = Raised e sc'
            \<and> sc_events sc' = sc_events sc @ [Assign_camera cam]
            \<and> sc_samples sc' = (if camera_name_of cam = ''0'' then 4 else SAMPLES))
       \<or> (\<exists>sc' r. process_camera ctx cam sc = Ok sc'
            \<and> sc_events sc' = sc_events sc @ [Assign_camera cam, Render r]
            \<and> sc_samples sc' = (if camera_name_of cam = ''0'' then 4 else SAMPLES)
            \<and> good_render ctx cam r)"
proof -
  let ?sc0 = "turn_setup ctx cam sc"
  let ?loop = "layer_loop ctx (camera_name_of cam) cam [0..<length (sc_view_layers sc)] ?sc0"
  have len: "length (sc_view_layers ?sc0) = length (sc_view_layers sc)"
    by (simp add: turn_setup_def)
  have same: "same_setup ?sc0 (state_of ?loop)" by (rule layer_loop_same_setup)
  show ?thesis
  proof (cases ?loop)
    case (Raised e sc')
    with same have "sc_events sc' = sc_events sc @ [Assign_camera cam]"
      and "sc_samples sc' = (if camera_name_of cam = ''0'' then 4 else SAMPLES)"
      by (simp_all add: same_setup_def state_of_def turn_setup_def)
    with Raised show ?thesis
      by (simp add: process_camera_unfold [OF assms])
  next
    case (Ok sc')
    with same have ev: "sc_events sc' = sc_events sc @ [Assign_camera cam]"
      and sa: "sc_samples sc' = (if camera_name_of cam = ''0'' then 4 else SAMPLES)"
      and ca: "sc_camera sc' = Some cam"
      by (simp_all add: same_setup_def state_of_def turn_setup_def)
    from Ok have "layer_loop ctx (camera_name_of cam) cam [0..<length (sc_view_layers ?sc0)] ?sc0 = Ok sc'"
      by (simp only: len)
    then have no: "sc_nodes sc' = expected_nodes ctx (camera_name_of cam) (sc_view_layers sc')"
      by (rule layer_loop_all_nodes) (simp add: turn_setup_def)
    have "process_camera ctx cam sc = Ok (render sc')"
      using Ok by (simp add: process_camera_unfold [OF assms])
    moreover have "\<exists>r. sc_events (render sc') = sc_events sc @ [Assign_camera cam, Render r]
        \<and> good_render ctx cam r"
      using ev sa ca no by (simp add: render_def good_render_def)
    moreover have "sc_samples (render sc') = (if camera_name_of cam = ''0'' then 4 else SAMPLES)"
      using sa by (simp add: render_def)
    ultimately show ?thesis by blast
  qed
qed

lemma process_camera_events_ok:
  assumes "list_all (event_ok ctx) (sc_events sc)"
  shows "list_all (event_ok ctx) (sc_events (state_of (process_camera ctx cam sc)))"
proof (cases "not_importable cam \<or> filtered_out ctx cam")
  case True
  then show ?thesis using assms by (simp add: process_camera_skipped state_of_def)
next
  case False
  then have a: "\<not> not_importable cam" and b: "\<not> filtered_out ctx cam" by simp_all
  from process_camera_turn [OF a b, of sc] show ?thesis
    using assms a b by (auto simp: state_of_def good_render_def)
qed

lemma camera_loop_events_ok:
  assumes "list_all (event_ok ctx) (sc_events sc)"
  shows "list_all (event_ok ctx) (sc_events (state_of (camera_loop ctx cams sc)))"
  using assms
proof (induction cams arbitrary: sc)
  case Nil
  then show ?case by (simp add: state_of_def)
next
  case (Cons cam cams)
  note step = process_camera_events_ok [OF Cons.prems, of cam]
  show ?case
  proof (cases "process_camera ctx cam sc")
    case (Ok sc1)
    with step have "list_all (event_ok ctx) (sc_events sc1)" by (simp add: state_of_def)
    from Cons.IH [OF this] show ?thesis using Ok by simp
  next
    case (Raised e sc1)
    with step show ?thesis by (simp add: state_of_def)
  qed
qed

lemma render_scene_events_ok:
  "list_all (event_ok ctx) (sc_events (state_of (render_scene ctx objs sc)))"
  by (simp add: render_scene_def Let_def camera_loop_events_ok)

subsection \<open>Render driver: sample count\<close>

lemma startswith_decompose: "startswith s p \<Longrightarrow> s = p @ drop (length p) s"
  by (induction s p rule: startswith.induct) simp_all

lemma startswith_append: "startswith (p @ t) p"
  by (induction p) simp_all

lemma removeprefix_eq_iff:
  "(removeprefix s p = t) = (if startswith s p then s = p @ t else s = t)"
proof (cases "startswith s p")
  case True
  from startswith_decompose [OF True] have eq: "s = p @ drop (length p) s" .
  have "(drop (length p) s = t) = (s = p @ t)"
  proof
    assume "drop (length p) s = t"
    with eq show "s = p @ t" by simp
  next
    assume "s = p @ t"
    then show "drop (length p) s = t" by simp
  qed
  with True show ?thesis by (simp add: removeprefix_def)
next
  case False
  then show ?thesis by (simp add: removeprefix_def)
qed

lemma camera_name_zero:
  "(camera_name_of cam = ''0'') = (ob_name cam = ''0'' \<or> ob_name cam = ''Camera_0'')"
proof (cases "startswith (ob_name cam) ''Camera_''")
  case True
  then have "ob_name cam \<noteq> ''0''" by auto
  with True show ?thesis by (simp add: camera_name_of_def removeprefix_eq_iff)
next
  case False
  then have "ob_name cam \<noteq> ''Camera_0''" by auto
  with False show ?thesis by (simp add: camera_name_of_def removeprefix_eq_iff)
qed

lemma renders_of_set: "(r \<in> set (renders_of evs)) = (Render r \<in> set evs)"
  by (induction evs rule: renders_of.induct) auto

text \<open>
  Claim C3, amended. The driver compares \<^verbatim>\<open>camera_name\<close>, the camera's name without a leading
  \<^verbatim>\<open>Camera_\<close>, with \<^verbatim>\<open>"0"\<close>. So in the turn of a camera that is not skipped the sample count
  is set to 4 when the camera is named \<^verbatim>\<open>0\<close> or \<^verbatim>\<open>Camera_0\<close>, and to \<open>SAMPLES\<close> for every other
  name; and every render call of a run is made with the sample count that its camera's name
  gives by this rule.
\<close>

theorem sample_count_by_camera_name:
  "(\<not> not_importable cam \<and> \<not> filtered_out ctx cam \<longrightarrow>
      sc_samples (state_of (process_camera ctx cam sc)) =
        (if ob_name cam = ''0'' \<or> ob_name cam = ''Camera_0'' then 4 else SAMPLES))
   \<and> (\<forall>r \<in> set (renders_of (sc_events (state_of (render_scene ctx objs sc)))).
        \<exists>c. rc_camera r = Some c \<and> \<not> not_importable c \<and> \<not> filtered_out ctx c
          \<and> rc_samples r = (if ob_name c = ''0'' \<or> ob_name c = ''Camera_0'' then 4 else SAMPLES))"
proof (intro conjI impI ballI)
  assume "\<not> not_importable cam \<and> \<not> filtered_out ctx cam"
  then have a: "\<not> not_importable cam" and b: "\<not> filtered_out ctx cam" by simp_all
  from process_camera_turn [OF a b, of sc]
  show "sc_samples (state_of (process_camera ctx cam sc)) =
        (if ob_name cam = ''0'' \<or> ob_name cam = ''Camera_0'' then 4 else SAMPLES)"
    by (auto simp: state_of_def camera_name_zero)
next
  fix r
  assume "r \<in> set (renders_of (sc_events (state_of (render_scene ctx objs sc))))"
  then have "Render r \<in> set (sc_events (state_of (render_scene ctx objs sc)))"
    by (simp add: renders_of_set)
  with render_scene_events_ok [of ctx objs sc] have "event_ok ctx (Render r)"
    unfolding list_all_iff by blast
  then show "\<exists>c. rc_camera r = Some c \<and> \<not> not_importable c \<and> \<not> filtered_out ctx c
          \<and> rc_samples r = (if ob_name c = ''0'' \<or> ob_name c = ''Camera_0'' then 4 else SAMPLES)"
    by (auto simp: good_render_def camera_name_zero split: option.splits)
qed

text \<open>The definitions to unfold when a concrete run is evaluated.\<close>

lemmas driver_eval =
  render_scene_def example_context_def example_camera_def example_scene_def example_layer_def
  process_camera_def not_importable_def filtered_out_def camera_name_of_def removeprefix_def
  Let_def process_layer_def render_def state_of_def raised_def layer_nodes_def image_path_def
  mist_path_def layer_links_def layer_prefix_def relpath_in_blend_dir_def upt_rec

theorem sample_count_by_camera_name_witness:
  "sc_samples (state_of (process_camera example_context (example_camera ''0'' False [1])
      (example_scene [example_layer ''main'']))) = 4
   \<and> sc_samples (state_of (process_camera example_context (example_camera ''Camera_0'' False [1])
      (example_scene [example_layer ''main'']))) = 4
   \<and> sc_samples (state_of (process_camera example_context (example_camera ''Camera_1'' False [1])
      (example_scene [example_layer ''main'']))) = 4096"
  using sample_count_by_camera_name [of "example_camera ''0'' False [1]" example_context
      "example_scene [example_layer ''main'']"]
    sample_count_by_camera_name [of "example_camera ''Camera_0'' False [1]" example_context
      "example_scene [example_layer ''main'']"]
    sample_count_by_camera_name [of "example_camera ''Camera_1'' False [1]" example_context
      "example_scene [example_layer ''main'']"]
  by (simp add: not_importable_def filtered_out_def example_camera_def example_context_def
      SAMPLES_def camera_name_of_def removeprefix_def)

text \<open>
  The claim as stated fails for the camera named \<^verbatim>\<open>Camera_0\<close>: it is not named \<^verbatim>\<open>0\<close>, it is
  not skipped, and it is rendered with 4 samples, not with \<open>SAMPLES\<close>.
\<close>

theorem sample_count_counterexample:
  "ob_name (example_camera ''Camera_0'' False [1]) \<noteq> ''0''
   \<and> raised (render_scene example_context [example_camera ''Camera_0'' False [1]]
        (example_scene [example_layer ''main''])) = None
   \<and> map rc_samples (renders_of (sc_events (state_of
        (render_scene example_context [example_camera ''Camera_0'' False [1]]
           (example_scene [example_layer ''main'']))))) = [4]
   \<and> SAMPLES \<noteq> 4"
  by (simp add: driver_eval SAMPLES_def)

subsection \<open>Render driver: skipped cameras\<close>

text \<open>
  Claim C7. A camera whose name contains \<^verbatim>\<open>-noimp\<close> or whose \<^verbatim>\<open>hide_render\<close> flag is set is
  never assigned to \<^verbatim>\<open>scene.camera\<close> during a run, and no render call of the run is made
  with it as the scene's camera. This holds of the events made up to the end of the run,
  whether the run completes or ends in an exception.
\<close>

theorem skipped_camera_never_used:
  assumes "str_in ''-noimp'' (ob_name cam) \<or> ob_hide_render cam"
  shows "Assign_camera cam \<notin> set (sc_events (state_of (render_scene ctx objs sc)))
     \<and> (\<forall>r. Render r \<in> set (sc_events (state_of (render_scene ctx objs sc)))
            \<longrightarrow> rc_camera r \<noteq> Some cam)"
proof -
  from assms have skip: "not_importable cam" by (auto simp: not_importable_def)
  have ok: "\<And>ev. ev \<in> set (sc_events (state_of (render_scene ctx objs sc))) \<Longrightarrow> event_ok ctx ev"
    using render_scene_events_ok [of ctx objs sc] unfolding list_all_iff by blast
  have "Assign_camera cam \<notin> set (sc_events (state_of (render_scene ctx objs sc)))"
    using ok [of "Assign_camera cam"] skip by auto
  moreover have "rc_camera r \<noteq> Some cam"
    if "Render r \<in> set (sc_events (state_of (render_scene ctx objs sc)))" for r
    using ok [OF that] skip by (auto split: option.splits)
  ultimately show ?thesis by blast
qed

theorem skipped_camera_never_used_witness:
  "sc_events (state_of (render_scene example_context
        [example_camera ''Camera_1-noimp'' False [1], example_camera ''Camera_2'' True [1],
         example_camera ''Camera_3'' False [1]]
        (example_scene [example_layer ''main''])))
     = [Assign_camera (example_camera ''Camera_3'' False [1]),
        Render \<lparr> rc_animation = False,
                 rc_camera = Some (example_camera ''Camera_3'' False [1]),
                 rc_samples = 4096, rc_frame_end = 250,
                 rc_view_layers = [(example_layer ''main'')
                    \<lparr>vl_use_pass_z := False, vl_use_pass_mist := True\<rparr>],
                 rc_nodes = [CompositorNodeRLayers ''main'',
                    CompositorNodeOutputFile ''//renders/S/#_3'' ''//'',
                    CompositorNodeOutputFile ''//renders/S/m_#_3'' ''//''],
                 rc_links = [(0, ''Image'', 1, 0), (0, ''Mist'', 2, 0)] \<rparr>]
   \<and> Assign_camera (example_camera ''Camera_1-noimp'' False [1]) \<notin> set (sc_events (state_of
        (render_scene example_context
          [example_camera ''Camera_1-noimp'' False [1], example_camera ''Camera_2'' True [1],
           example_camera ''Camera_3'' False [1]]
          (example_scene [example_layer ''main'']))))
   \<and> Assign_camera (example_camera ''Camera_2'' True [1]) \<notin> set (sc_events (state_of
        (render_scene example_context
          [example_camera ''Camera_1-noimp'' False [1], example_camera ''Camera_2'' True [1],
           example_camera ''Camera_3'' False [1]]
          (example_scene [example_layer ''main'']))))"
proof -
  have h1: "str_in ''-noimp'' (ob_name (example_camera ''Camera_1-noimp'' False [1]))
      \<or> ob_hide_render (example_camera ''Camera_1-noimp'' False [1])"
    by (simp add: example_camera_def)
  have h2: "str_in ''-noimp'' (ob_name (example_camera ''Camera_2'' True [1]))
      \<or> ob_hide_render (example_camera ''Camera_2'' True [1])"
    by (simp add: example_camera_def)
  have run: "sc_events (state_of (render_scene example_context
        [example_camera ''Camera_1-noimp'' False [1], example_camera ''Camera_2'' True [1],
         example_camera ''Camera_3'' False [1]]
        (example_scene [example_layer ''main''])))
     = [Assign_camera (example_camera ''Camera_3'' False [1]),
        Render \<lparr> rc_animation = False,
                 rc_camera = Some (example_camera ''Camera_3'' False [1]),
                 rc_samples = 4096, rc_frame_end = 250,
                 rc_view_layers = [(example_layer ''main'')
                    \<lparr>vl_use_pass_z := False, vl_use_pass_mist := True\<rparr>],
                 rc_nodes = [CompositorNodeRLayers ''main'',
                    CompositorNodeOutputFile ''//renders/S/#_3'' ''//'',
                    CompositorNodeOutputFile ''//renders/S/m_#_3'' ''//''],
                 rc_links = [(0, ''Image'', 1, 0), (0, ''Mist'', 2, 0)] \<rparr>]"
    by (simp add: driver_eval SAMPLES_def)
  from run skipped_camera_never_used [OF h1] skipped_camera_never_used [OF h2]
  show ?thesis by blast
qed

subsection \<open>Render driver: output paths\<close>

text \<open>
  Claim C4, amended. At every render call of a run, made in the turn of camera \<open>cam\<close>, the
  compositor tree holds exactly three nodes for each view layer in use, in layer order: the
  render-layers node of the layer, the file output for the combined image and the file
  output for the mist pass. With \<open>S\<close> the script's \<^verbatim>\<open>name\<close>, \<open>L\<close> the layer's name and \<open>C\<close> the
  camera's name without a leading \<^verbatim>\<open>Camera_\<close>, the two paths are \<^verbatim>\<open>bpy.path.relpath\<close> applied
  to \<^verbatim>\<open>renders/S/L/#_C\<close> and \<^verbatim>\<open>renders/S/L/m_#_C\<close> for a layer that is not the first, and to
  \<^verbatim>\<open>renders/S/#_C\<close> and \<^verbatim>\<open>renders/S/m_#_C\<close> for the first layer.
\<close>

theorem output_paths:
  "\<forall>r \<in> set (renders_of (sc_events (state_of (render_scene ctx objs sc)))).
     \<exists>cam. rc_camera r = Some cam \<and> \<not> not_importable cam \<and> \<not> filtered_out ctx cam \<and>
       rc_nodes r =
         concat (map (\<lambda>i.
             [CompositorNodeRLayers (vl_name (rc_view_layers r ! i)),
              CompositorNodeOutputFile
                (ctx_relpath ctx (''renders/'' @ ctx_name ctx @ ''/''
                   @ (if i \<noteq> 0 then vl_name (rc_view_layers r ! i) @ ''/'' else [])
                   @ ''#_'' @ removeprefix (ob_name cam) ''Camera_'')) ''//'',
              CompositorNodeOutputFile
                (ctx_relpath ctx (''renders/'' @ ctx_name ctx @ ''/''
                   @ (if i \<noteq> 0 then vl_name (rc_view_layers r ! i) @ ''/'' else [])
                   @ ''m_#_'' @ removeprefix (ob_name cam) ''Camera_'')) ''//''])
           (filter (\<lambda>i. vl_use (rc_view_layers r ! i)) [0..<length (rc_view_layers r)]))"
proof
  fix r
  assume "r \<in> set (renders_of (sc_events (state_of (render_scene ctx objs sc))))"
  then have "Render r \<in> set (sc_events (state_of (render_scene ctx objs sc)))"
    by (simp add: renders_of_set)
  with render_scene_events_ok [of ctx objs sc] have "event_ok ctx (Render r)"
    unfolding list_all_iff by blast
  then obtain cam where cam: "rc_camera r = Some cam" "\<not> not_importable cam"
      "\<not> filtered_out ctx cam" "good_render ctx cam r"
    by (auto split: option.splits)
  from cam(4) have "rc_nodes r = expected_nodes ctx (camera_name_of cam) (rc_view_layers r)"
    by (simp add: good_render_def)
  then have "rc_nodes r =
         concat (map (\<lambda>i.
             [CompositorNodeRLayers (vl_name (rc_view_layers r ! i)),
              CompositorNodeOutputFile
                (ctx_relpath ctx (''renders/'' @ ctx_name ctx @ ''/''
                   @ (if i \<noteq> 0 then vl_name (rc_view_layers r ! i) @ ''/'' else [])
                   @ ''#_'' @ removeprefix (ob_name cam) ''Camera_'')) ''//'',
              CompositorNodeOutputFile
                (ctx_relpath ctx (''renders/'' @ ctx_name ctx @ ''/''
                   @ (if i \<noteq> 0 then vl_name (rc_view_layers r ! i) @ ''/'' else [])
                   @ ''m_#_'' @ removeprefix (ob_name cam) ''Camera_'')) ''//''])
           (filter (\<lambda>i. vl_use (rc_view_layers r ! i)) [0..<length (rc_view_layers r)]))"
    by (simp add: expected_nodes_def layer_nodes_def image_path_def mist_path_def
        layer_prefix_def camera_name_of_def)
  with cam(1-3) show "\<exists>cam. rc_camera r = Some cam \<and> \<not> not_importable cam \<and> \<not> filtered_out ctx cam \<and>
       rc_nodes r =
         concat (map (\<lambda>i.
             [CompositorNodeRLayers (vl_name (rc_view_layers r ! i)),
              CompositorNodeOutputFile
                (ctx_relpath ctx (''renders/'' @ ctx_name ctx @ ''/''
                   @ (if i \<noteq> 0 then vl_name (rc_view_layers r ! i) @ ''/'' else [])
                   @ ''#_'' @ removeprefix (ob_name cam) ''Camera_'')) ''//'',
              CompositorNodeOutputFile
                (ctx_relpath ctx (''renders/'' @ ctx_name ctx @ ''/''
                   @ (if i \<noteq> 0 then vl_name (rc_view_layers r ! i) @ ''/'' else [])
                   @ ''m_#_'' @ removeprefix (ob_name cam) ''Camera_'')) ''//''])
           (filter (\<lambda>i. vl_use (rc_view_layers r ! i)) [0..<length (rc_view_layers r)]))"
    by blast
qed

text \<open>
  The claim as stated fails for the camera named \<^verbatim>\<open>Camera_1\<close> and the second layer \<^verbatim>\<open>fg\<close>:
  the mist path is \<^verbatim>\<open>//renders/S/fg/m_#_1\<close>, built from \<^verbatim>\<open>1\<close> and not from the camera's name.
\<close>

theorem output_paths_counterexample:
  "ob_name (example_camera ''Camera_1'' False [1]) = ''Camera_1''
   \<and> map rc_nodes (renders_of (sc_events (state_of
        (render_scene example_context [example_camera ''Camera_1'' False [1]]
           (example_scene [example_layer ''main'', example_layer ''fg''])))))
     = [[CompositorNodeRLayers ''main'',
         CompositorNodeOutputFile ''//renders/S/#_1'' ''//'',
         CompositorNodeOutputFile ''//renders/S/m_#_1'' ''//'',
         CompositorNodeRLayers ''fg'',
         CompositorNodeOutputFile ''//renders/S/fg/#_1'' ''//'',
         CompositorNodeOutputFile ''//renders/S/fg/m_#_1'' ''//'']]
   \<and> ''//renders/S/fg/m_#_1'' \<noteq> ''renders/S/fg/m_#_Camera_1''
   \<and> ''//renders/S/fg/m_#_1'' \<noteq> ''//renders/S/fg/m_#_Camera_1''"
  by (simp add: driver_eval)

theorem output_paths_witness:
  "map rc_nodes (renders_of (sc_events (state_of
        (render_scene (example_context\<lparr>ctx_CAMERAS := Some ''2''\<rparr>)
           [example_camera ''Camera_1'' False [1], example_camera ''Camera_2'' False [1]]
           (example_scene [example_layer ''main'', example_layer ''_off'', example_layer ''fg''])))))
     = [[CompositorNodeRLayers ''main'',
         CompositorNodeOutputFile ''//renders/S/#_2'' ''//'',
         CompositorNodeOutputFile ''//renders/S/m_#_2'' ''//'',
         CompositorNodeRLayers ''fg'',
         CompositorNodeOutputFile ''//renders/S/fg/#_2'' ''//'',
         CompositorNodeOutputFile ''//renders/S/fg/m_#_2'' ''//'']]"
  using output_paths [of "example_context\<lparr>ctx_CAMERAS := Some ''2''\<rparr>"
      "[example_camera ''Camera_1'' False [1], example_camera ''Camera_2'' False [1]]"
      "example_scene [example_layer ''main'', example_layer ''_off'', example_layer ''fg'']"]
  by (simp add: driver_eval)

subsection \<open>Render driver: unguarded lookups\<close>

lemma renders_of_append: "renders_of (xs @ ys) = renders_of xs @ renders_of ys"
  by (induction xs rule: renders_of.induct) simp_all

lemma same_setup_nth:
  assumes "same_setup sc sc'" and "i < length (sc_view_layers sc)"
  shows "vl_name (sc_view_layers sc' ! i) = vl_name (sc_view_layers sc ! i)"
    and "vl_layer_collection (sc_view_layers sc' ! i) = vl_layer_collection (sc_view_layers sc ! i)"
    and "length (sc_view_layers sc') = length (sc_view_layers sc)"
proof -
  from assms(1) have n: "map vl_name (sc_view_layers sc') = map vl_name (sc_view_layers sc)"
    and c: "map vl_layer_collection (sc_view_layers sc')
              = map vl_layer_collection (sc_view_layers sc)"
    by (simp_all add: same_setup_def)
  from n show len: "length (sc_view_layers sc') = length (sc_view_layers sc)"
    by (rule map_eq_imp_length_eq)
  from n have "map vl_name (sc_view_layers sc') ! i = map vl_name (sc_view_layers sc) ! i"
    by simp
  with assms(2) len show "vl_name (sc_view_layers sc' ! i) = vl_name (sc_view_layers sc ! i)"
    by simp
  from c have "map vl_layer_collection (sc_view_layers sc') ! i
                 = map vl_layer_collection (sc_view_layers sc) ! i"
    by simp
  with assms(2) len
  show "vl_layer_collection (sc_view_layers sc' ! i) = vl_layer_collection (sc_view_layers sc ! i)"
    by simp
qed

lemma layer_loop_no_collection:
  assumes "ob_users_collection cam = []" and "is \<noteq> []"
  shows "layer_loop ctx cn cam is sc = Raised IndexError sc"
  using assms by (cases "is") (simp_all add: process_layer_def Let_def)

lemma process_layer_raises_AttributeError:
  assumes "process_layer ctx cn cam i sc = Raised e sc'" and "ob_users_collection cam \<noteq> []"
  shows "e = AttributeError"
  using assms
  by (auto simp: process_layer_def Let_def split: list.splits option.splits if_splits)

lemma process_layer_missing:
  assumes "ob_users_collection cam = c # cs"
    and "\<not> startswith (vl_name (sc_view_layers sc ! i)) ''_''"
    and "find_layer_collection (vl_layer_collection (sc_view_layers sc ! i)) c = None"
  shows "process_layer ctx cn cam i sc = Raised AttributeError sc"
  using assms by (simp add: process_layer_def Let_def)

lemma layer_loop_missing:
  assumes "ob_users_collection cam = c # cs"
    and "i \<in> set is" and "\<forall>k\<in>set is. k < length (sc_view_layers sc)"
    and "\<not> startswith (vl_name (sc_view_layers sc ! i)) ''_''"
    and "find_layer_collection (vl_layer_collection (sc_view_layers sc ! i)) c = None"
  shows "\<exists>sc'. layer_loop ctx cn cam is sc = Raised AttributeError sc'"
  using assms(2-)
proof (induction "is" arbitrary: sc)
  case Nil
  then show ?case by simp
next
  case (Cons j "is")
  show ?case
  proof (cases "process_layer ctx cn cam j sc")
    case (Raised e sc1)
    with assms(1) have "e = AttributeError"
      by (auto dest: process_layer_raises_AttributeError)
    with Raised show ?thesis by simp
  next
    case (Ok sc1)
    have "j \<noteq> i"
    proof
      assume "j = i"
      with Cons.prems(3,4) assms(1) have "process_layer ctx cn cam j sc = Raised AttributeError sc"
        by (simp add: process_layer_missing)
      with Ok show False by simp
    qed
    with Cons.prems(1) have mem: "i \<in> set is" by simp
    from Cons.prems(1,2) have i: "i < length (sc_view_layers sc)" by blast
    have same: "same_setup sc sc1"
      using process_layer_same_setup [of sc ctx cn cam j] Ok by (simp add: state_of_def)
    note nth = same_setup_nth [OF same i]
    from Cons.prems(2) nth(3) have b: "\<forall>k\<in>set is. k < length (sc_view_layers sc1)" by simp
    from Cons.prems(3) nth(1) have u: "\<not> startswith (vl_name (sc_view_layers sc1 ! i)) ''_''"
      by simp
    from Cons.prems(4) nth(2)
    have f: "find_layer_collection (vl_layer_collection (sc_view_layers sc1 ! i)) c = None"
      by simp
    from Cons.IH [OF mem b u f] Ok show ?thesis by simp
  qed
qed

lemma list_ex_same_images:
  assumes "map f xs = map f ys" and "map g xs = map g ys"
    and "\<And>x y. f x = f y \<Longrightarrow> g x = g y \<Longrightarrow> P x = P y"
  shows "list_ex P xs = list_ex P ys"
  using assms(1,2)
proof (induction xs arbitrary: ys)
  case Nil
  then show ?case by simp
next
  case (Cons x xs)
  from Cons.prems(1) obtain y ys0 where ys: "ys = y # ys0" by (cases ys) simp_all
  from Cons.prems have hd: "f x = f y" "g x = g y"
    and tl: "map f xs = map f ys0" "map g xs = map g ys0"
    unfolding ys by simp_all
  from assms(3) [OF hd] Cons.IH [OF tl] show ?case unfolding ys by simp
qed

lemma lookup_fails_same_layers:
  assumes "map vl_name ls' = map vl_name ls"
    and "map vl_layer_collection ls' = map vl_layer_collection ls"
  shows "lookup_fails cam ls' = lookup_fails cam ls"
proof (cases "ob_users_collection cam")
  case Nil
  from assms(1) have "length ls' = length ls" by (rule map_eq_imp_length_eq)
  then have "(ls' = []) = (ls = [])" by auto
  with Nil show ?thesis by (simp add: lookup_fails_def)
next
  case (Cons c cs)
  have "list_ex (\<lambda>layer. \<not> startswith (vl_name layer) ''_''
            \<and> find_layer_collection (vl_layer_collection layer) c = None) ls'
      = list_ex (\<lambda>layer. \<not> startswith (vl_name layer) ''_''
            \<and> find_layer_collection (vl_layer_collection layer) c = None) ls"
    by (rule list_ex_same_images [OF assms]) simp
  with Cons show ?thesis by (simp add: lookup_fails_def)
qed

lemma process_camera_lookup_fails:
  assumes "\<not> not_importable cam" and "\<not> filtered_out ctx cam"
    and "lookup_fails cam (sc_view_layers sc)"
  shows "\<exists>sc'. process_camera ctx cam sc =
            Raised (if ob_users_collection cam = [] then IndexError else AttributeError) sc'
          \<and> sc_events sc' = sc_events sc @ [Assign_camera cam]"
proof -
  let ?sc0 = "turn_setup ctx cam sc"
  let ?is = "[0..<length (sc_view_layers sc)]"
  have layers: "sc_view_layers ?sc0 = sc_view_layers sc" by (simp add: turn_setup_def)
  have "\<exists>sc'. layer_loop ctx (camera_name_of cam) cam ?is ?sc0 =
           Raised (if ob_users_collection cam = [] then IndexError else AttributeError) sc'"
  proof (cases "ob_users_collection cam")
    case Nil
    with assms(3) have "?is \<noteq> []" by (simp add: lookup_fails_def)
    from layer_loop_no_collection [OF Nil this] Nil show ?thesis by simp
  next
    case (Cons c cs)
    with assms(3) obtain L where L: "L \<in> set (sc_view_layers sc)"
        "\<not> startswith (vl_name L) ''_''"
        "find_layer_collection (vl_layer_collection L) c = None"
      by (auto simp: lookup_fails_def list_ex_iff)
    from L(1) obtain i where i: "i < length (sc_view_layers sc)" "sc_view_layers sc ! i = L"
      by (auto simp: in_set_conv_nth)
    from i(1) have p1: "i \<in> set ?is" by simp
    have p2: "\<forall>k\<in>set ?is. k < length (sc_view_layers ?sc0)" by (simp only: layers) simp
    from L(2) i(2) have p3: "\<not> startswith (vl_name (sc_view_layers ?sc0 ! i)) ''_''"
      by (simp add: layers)
    from L(3) i(2)
    have p4: "find_layer_collection (vl_layer_collection (sc_view_layers ?sc0 ! i)) c = None"
      by (simp add: layers)
    have "\<exists>sc'. layer_loop ctx (camera_name_of cam) cam ?is ?sc0 = Raised AttributeError sc'"
      by (rule layer_loop_missing [OF Cons p1 p2 p3 p4])
    with Cons show ?thesis by simp
  qed
  then obtain sc' where r: "layer_loop ctx (camera_name_of cam) cam ?is ?sc0 =
           Raised (if ob_users_collection cam = [] then IndexError else AttributeError) sc'"
    by blast
  from layer_loop_same_setup [of ?sc0 ctx "camera_name_of cam" cam ?is] r
  have "sc_events sc' = sc_events sc @ [Assign_camera cam]"
    by (simp add: state_of_def same_setup_def turn_setup_def)
  with r show ?thesis
    by (simp add: process_camera_unfold [OF assms(1,2)])
qed

lemma process_camera_layers:
  "map vl_name (sc_view_layers (state_of (process_camera ctx cam sc))) = map vl_name (sc_view_layers sc)
   \<and> map vl_layer_collection (sc_view_layers (state_of (process_camera ctx cam sc)))
       = map vl_layer_collection (sc_view_layers sc)"
proof (cases "not_importable cam \<or> filtered_out ctx cam")
  case True
  then show ?thesis by (simp add: process_camera_skipped state_of_def)
next
  case False
  then have a: "\<not> not_importable cam" and b: "\<not> filtered_out ctx cam" by simp_all
  let ?sc0 = "turn_setup ctx cam sc"
  let ?loop = "layer_loop ctx (camera_name_of cam) cam [0..<length (sc_view_layers sc)] ?sc0"
  have "same_setup ?sc0 (state_of ?loop)" by (rule layer_loop_same_setup)
  then have "map vl_name (sc_view_layers (state_of ?loop)) = map vl_name (sc_view_layers sc)
     \<and> map vl_layer_collection (sc_view_layers (state_of ?loop))
         = map vl_layer_collection (sc_view_layers sc)"
    by (simp add: same_setup_def turn_setup_def)
  then show ?thesis
    by (cases ?loop) (simp_all add: process_camera_unfold [OF a b] state_of_def render_def)
qed

lemma process_camera_renders:
  assumes "process_camera ctx c sc = Ok sc1" and "r \<in> set (renders_of (sc_events sc1))"
  shows "r \<in> set (renders_of (sc_events sc)) \<or> rc_camera r = Some c"
proof (cases "not_importable c \<or> filtered_out ctx c")
  case True
  with assms show ?thesis by (simp add: process_camera_skipped)
next
  case False
  then have a: "\<not> not_importable c" and b: "\<not> filtered_out ctx c" by simp_all
  from process_camera_turn [OF a b, of sc] assms show ?thesis
    by (auto simp: renders_of_append good_render_def)
qed

lemma camera_loop_lookup_fails:
  assumes "cam \<in> set cams" and "\<not> not_importable cam" and "\<not> filtered_out ctx cam"
    and "lookup_fails cam (sc_view_layers sc)"
    and "\<forall>r \<in> set (renders_of (sc_events sc)). rc_camera r \<noteq> Some cam"
  shows "\<exists>e sc'. camera_loop ctx cams sc = Raised e sc'
           \<and> (\<forall>r \<in> set (renders_of (sc_events sc')). rc_camera r \<noteq> Some cam)"
  using assms(1,4,5)
proof (induction cams arbitrary: sc)
  case Nil
  then show ?case by simp
next
  case (Cons c cams)
  show ?case
  proof (cases "process_camera ctx c sc")
    case (Raised e sc1)
    have "sc_events sc1 = sc_events sc \<or> sc_events sc1 = sc_events sc @ [Assign_camera c]"
    proof (cases "not_importable c \<or> filtered_out ctx c")
      case True
      with Raised show ?thesis by (simp add: process_camera_skipped)
    next
      case False
      then have a: "\<not> not_importable c" and b: "\<not> filtered_out ctx c" by simp_all
      from process_camera_turn [OF a b, of sc] Raised show ?thesis by auto
    qed
    with Cons.prems(3) have "\<forall>r \<in> set (renders_of (sc_events sc1)). rc_camera r \<noteq> Some cam"
      by (auto simp: renders_of_append)
    with Raised show ?thesis by simp
  next
    case (Ok sc1)
    have "c \<noteq> cam"
    proof
      assume "c = cam"
      with process_camera_lookup_fails [OF assms(2,3) Cons.prems(2)] Ok show False by auto
    qed
    with Cons.prems(1) have mem: "cam \<in> set cams" by simp
    from process_camera_layers [of ctx c sc] Ok
    have "lookup_fails cam (sc_view_layers sc1) = lookup_fails cam (sc_view_layers sc)"
      by (intro lookup_fails_same_layers) (simp_all add: state_of_def)
    with Cons.prems(2) have lf: "lookup_fails cam (sc_view_layers sc1)" by simp
    have "\<forall>r \<in> set (renders_of (sc_events sc1)). rc_camera r \<noteq> Some cam"
    proof
      fix r
      assume r: "r \<in> set (renders_of (sc_events sc1))"
      from process_camera_renders [OF Ok r] show "rc_camera r \<noteq> Some cam"
      proof
        assume "r \<in> set (renders_of (sc_events sc))"
        with Cons.prems(3) show ?thesis by simp
      next
        assume "rc_camera r = Some c"
        with \<open>c \<noteq> cam\<close> show ?thesis by simp
      qed
    qed
    from Cons.IH [OF mem lf this] Ok show ?thesis by simp
  qed
qed

text \<open>
  Claim C10, amended. Let a camera pass the skip filters. If it is in no collection and the
  scene has a view layer, its turn ends in \<^verbatim>\<open>IndexError\<close>. If its first collection has no
  layer collection in some view layer whose name does not start with an underscore, its
  turn ends in \<^verbatim>\<open>AttributeError\<close>. In both cases a run over objects that include the camera
  ends in an uncaught exception and makes no render call for that camera. (A layer whose
  name starts with an underscore is switched off before \<^verbatim>\<open>.exclude\<close> is read, so a missing
  layer collection there raises nothing.)
\<close>

theorem unguarded_lookup_aborts:
  assumes "cam \<in> set objs" and "\<not> not_importable cam" and "\<not> filtered_out ctx cam"
    and "lookup_fails cam (sc_view_layers sc)"
  shows "(\<exists>sc'. process_camera ctx cam sc =
            Raised (if ob_users_collection cam = [] then IndexError else AttributeError) sc')
     \<and> (\<exists>e sc'. render_scene ctx objs sc = Raised e sc'
           \<and> (\<forall>r \<in> set (renders_of (sc_events sc')). rc_camera r \<noteq> Some cam))"
proof -
  from assms(1,2) have mem: "cam \<in> set (filter (\<lambda>obj. ob_type obj = ''CAMERA'') objs)"
    by (simp add: not_importable_def)
  have "\<exists>e sc'. camera_loop ctx (filter (\<lambda>obj. ob_type obj = ''CAMERA'') objs)
           (sc\<lparr>sc_events := []\<rparr>) = Raised e sc'
           \<and> (\<forall>r \<in> set (renders_of (sc_events sc')). rc_camera r \<noteq> Some cam)"
    by (rule camera_loop_lookup_fails [OF mem assms(2,3)]) (use assms(4) in simp_all)
  then have "\<exists>e sc'. render_scene ctx objs sc = Raised e sc'
           \<and> (\<forall>r \<in> set (renders_of (sc_events sc')). rc_camera r \<noteq> Some cam)"
    by (simp add: render_scene_def Let_def)
  with process_camera_lookup_fails [OF assms(2-4)] show ?thesis by blast
qed

text \<open>
  The claim as stated fails when the only layer without a layer collection for the camera's
  collection has a name that starts with an underscore: the run completes and the camera
  is rendered.
\<close>

theorem unguarded_lookup_counterexample:
  "\<not> not_importable (example_camera ''Camera_1'' False [7])
   \<and> \<not> filtered_out example_context (example_camera ''Camera_1'' False [7])
   \<and> find_layer_collection (vl_layer_collection (example_layer ''_hidden'')) 7 = None
   \<and> raised (render_scene example_context [example_camera ''Camera_1'' False [7]]
        (example_scene [example_layer ''_hidden''])) = None
   \<and> map rc_camera (renders_of (sc_events (state_of
        (render_scene example_context [example_camera ''Camera_1'' False [7]]
           (example_scene [example_layer ''_hidden''])))))
     = [Some (example_camera ''Camera_1'' False [7])]"
  by (simp add: driver_eval)

theorem unguarded_lookup_aborts_witness:
  "(\<exists>sc'. process_camera example_context (example_camera ''Camera_3'' False [])
           (example_scene [example_layer ''_hidden'']) = Raised IndexError sc')
   \<and> raised (render_scene example_context [example_camera ''Camera_3'' False []]
       (example_scene [example_layer ''_hidden''])) = Some IndexError
   \<and> raised (render_scene example_context
       [example_camera ''Camera_1'' False [1], example_camera ''Camera_2'' False [7]]
       (example_scene [example_layer ''_hidden'', example_layer ''main''])) = Some AttributeError"
proof -
  have a: "raised (render_scene example_context
       [example_camera ''Camera_1'' False [1], example_camera ''Camera_2'' False [7]]
       (example_scene [example_layer ''_hidden'', example_layer ''main''])) = Some AttributeError"
    by (simp add: driver_eval)
  have b: "raised (render_scene example_context [example_camera ''Camera_3'' False []]
       (example_scene [example_layer ''_hidden''])) = Some IndexError"
    by (simp add: driver_eval)
  have m: "example_camera ''Camera_3'' False [] \<in> set [example_camera ''Camera_3'' False []]"
    by simp
  have n: "\<not> not_importable (example_camera ''Camera_3'' False [])"
    by (simp add: not_importable_def example_camera_def)
  have f: "\<not> filtered_out example_context (example_camera ''Camera_3'' False [])"
    by (simp add: filtered_out_def example_context_def)
  have l: "lookup_fails (example_camera ''Camera_3'' False [])
      (sc_view_layers (example_scene [example_layer ''_hidden'']))"
    by (simp add: lookup_fails_def example_camera_def example_scene_def)
  have u: "ob_users_collection (example_camera ''Camera_3'' False []) = []"
    by (simp add: example_camera_def)
  from unguarded_lookup_aborts [OF m n f l]
  have "\<exists>sc'. process_camera example_context (example_camera ''Camera_3'' False [])
           (example_scene [example_layer ''_hidden'']) = Raised IndexError sc'"
    unfolding u by simp
  with a b show ?thesis by (intro conjI)
qed

subsection \<open>Cleanup pass\<close>

lemma find_name_Some:
  "n \<in> set (map f xs) \<Longrightarrow> \<exists>x. find (\<lambda>y. f y = n) xs = Some x \<and> f x = n \<and> x \<in> set xs"
  by (induction xs) auto

lemma find_name_None:
  "n \<notin> set (map f xs) \<Longrightarrow> find (\<lambda>y. f y = n) xs = None"
  by (induction xs) auto

lemma objects_remove_Ok:
  assumes "n \<in> set (map dob_name (bd_objects bd))"
  shows "\<exists>bd'. objects_remove n bd = Ok bd'
     \<and> bd_objects bd' = filter (\<lambda>x. dob_name x \<noteq> n) (bd_objects bd)
     \<and> bd_collections bd' = map (unlink_object n) (bd_collections bd)
     \<and> map dm_name (bd_meshes bd') = map dm_name (bd_meshes bd)
     \<and> bd_node_groups bd' = bd_node_groups bd"
proof -
  from find_name_Some [OF assms] obtain ob where "find (\<lambda>y. dob_name y = n) (bd_objects bd) = Some ob"
    by blast
  then show ?thesis
    by (simp add: objects_remove_def release_mesh_def comp_def)
qed

lemma keep_linked_names [simp]: "map dc_name (keep_linked P cs) = map dc_name cs"
  by (simp add: keep_linked_def comp_def)

lemma keep_linked_twice: "keep_linked P (keep_linked Q cs) = keep_linked (\<lambda>x. Q x \<and> P x) cs"
  by (simp add: keep_linked_def comp_def)

lemma keep_linked_filter:
  "keep_linked P (filter (\<lambda>c. Q (dc_name c)) cs) = filter (\<lambda>c. Q (dc_name c)) (keep_linked P cs)"
  by (induction cs) (simp_all add: keep_linked_def)

lemma unlink_is_keep_linked: "map (unlink_object n) cs = keep_linked (\<lambda>x. x \<noteq> n) cs"
  by (simp add: keep_linked_def unlink_object_def)

lemma set_map_filter_name:
  "set (map f (filter (\<lambda>x. P (f x)) xs)) = {n \<in> set (map f xs). P n}"
  by (induction xs) auto

lemma remove_all_objects_Ok:
  assumes "distinct ns" and "set ns \<subseteq> set (map dob_name (bd_objects bd))"
  shows "\<exists>bd'. remove_all_objects ns bd = Ok bd'
     \<and> bd_objects bd' = filter (\<lambda>x. dob_name x \<notin> set ns) (bd_objects bd)
     \<and> bd_collections bd' = keep_linked (\<lambda>x. x \<notin> set ns) (bd_collections bd)
     \<and> map dm_name (bd_meshes bd') = map dm_name (bd_meshes bd)
     \<and> bd_node_groups bd' = bd_node_groups bd"
  using assms
proof (induction ns arbitrary: bd)
  case Nil
  then show ?case by (simp add: keep_linked_def)
next
  case (Cons n ns)
  from Cons.prems have n: "n \<in> set (map dob_name (bd_objects bd))" by simp
  from objects_remove_Ok [OF n] obtain bd1 where
    ok: "objects_remove n bd = Ok bd1" and
    ob: "bd_objects bd1 = filter (\<lambda>x. dob_name x \<noteq> n) (bd_objects bd)" and
    co: "bd_collections bd1 = map (unlink_object n) (bd_collections bd)" and
    me: "map dm_name (bd_meshes bd1) = map dm_name (bd_meshes bd)" and
    ng: "bd_node_groups bd1 = bd_node_groups bd"
    by blast
  from Cons.prems have d: "distinct ns" and nn: "n \<notin> set ns" by simp_all
  have "set (map dob_name (bd_objects bd1)) = {m \<in> set (map dob_name (bd_objects bd)). m \<noteq> n}"
    unfolding ob by (rule set_map_filter_name)
  with Cons.prems nn have sub: "set ns \<subseteq> set (map dob_name (bd_objects bd1))"
    by auto
  from Cons.IH [OF d sub] obtain bd' where
    ok': "remove_all_objects ns bd1 = Ok bd'" and
    ob': "bd_objects bd' = filter (\<lambda>x. dob_name x \<notin> set ns) (bd_objects bd1)" and
    co': "bd_collections bd' = keep_linked (\<lambda>x. x \<notin> set ns) (bd_collections bd1)" and
    me': "map dm_name (bd_meshes bd') = map dm_name (bd_meshes bd1)" and
    ng': "bd_node_groups bd' = bd_node_groups bd1"
    by blast
  have "bd_objects bd' = filter (\<lambda>x. dob_name x \<notin> set (n # ns)) (bd_objects bd)"
    unfolding ob' ob by (simp add: conj_commute)
  moreover have "bd_collections bd' = keep_linked (\<lambda>x. x \<notin> set (n # ns)) (bd_collections bd)"
    unfolding co' co unlink_is_keep_linked keep_linked_twice by simp
  ultimately show ?case using ok ok' me me' ng ng' by simp
qed

lemma well_formed_purge:
  assumes "well_formed bd"
    and "bd_objects bd' = filter (\<lambda>x. P (dob_name x)) (bd_objects bd)"
    and "bd_collections bd' = keep_linked P (filter Q (bd_collections bd))"
    and "map dm_name (bd_meshes bd') = map dm_name (bd_meshes bd)"
    and "bd_node_groups bd' = bd_node_groups bd"
  shows "well_formed bd'"
proof -
  from assms(1) have
    dc: "distinct (map dc_name (bd_collections bd))" and
    dob: "distinct (map dob_name (bd_objects bd))" and
    dm: "distinct (map dm_name (bd_meshes bd))" and
    dn: "distinct (bd_node_groups bd)" and
    li: "\<And>c. c \<in> set (bd_collections bd) \<Longrightarrow> distinct (dc_objects c)
            \<and> set (dc_objects c) \<subseteq> set (map dob_name (bd_objects bd))"
    by (auto simp: well_formed_def list_all_iff)
  have 1: "distinct (map dc_name (bd_collections bd'))"
    using dc by (simp add: assms(3) distinct_map_filter)
  have 2: "distinct (map dob_name (bd_objects bd'))"
    using dob by (simp add: assms(2) distinct_map_filter)
  have 3: "distinct (map dm_name (bd_meshes bd'))" using dm by (simp add: assms(4))
  have 4: "distinct (bd_node_groups bd')" using dn by (simp add: assms(5))
  have 5: "distinct (dc_objects c) \<and> set (dc_objects c) \<subseteq> set (map dob_name (bd_objects bd'))"
    if "c \<in> set (bd_collections bd')" for c
  proof -
    from that obtain c0 where c0: "c0 \<in> set (bd_collections bd)"
        and c: "c = c0\<lparr>dc_objects := filter P (dc_objects c0)\<rparr>"
      by (auto simp: assms(3) keep_linked_def)
    have "set (map dob_name (bd_objects bd')) = {m \<in> set (map dob_name (bd_objects bd)). P m}"
      unfolding assms(2) by (rule set_map_filter_name)
    with li [OF c0] show ?thesis
      by (auto simp: c)
  qed
  from 1 2 3 4 5 show ?thesis
    by (auto simp: well_formed_def list_all_iff)
qed

lemma linked_keep_linked:
  "linked_to_generated cs (keep_linked P colls) n = (P n \<and> linked_to_generated cs colls n)"
  by (induction colls) (auto simp: linked_to_generated_def keep_linked_def)

lemma linked_filter_other:
  "c \<notin> set cs \<Longrightarrow>
     linked_to_generated cs (filter (\<lambda>x. dc_name x \<noteq> c) colls) n = linked_to_generated cs colls n"
  by (induction colls) (auto simp: linked_to_generated_def)

lemma linked_Cons_other:
  "\<not> generated_collection c \<Longrightarrow>
     linked_to_generated (c # cs) colls n = linked_to_generated cs colls n"
  by (induction colls) (auto simp: linked_to_generated_def)

lemma linked_Cons_generated:
  assumes "generated_collection c" and "coll \<in> set colls" and "dc_name coll = c"
    and "distinct (map dc_name colls)"
  shows "linked_to_generated (c # cs) colls n
           = (n \<in> set (dc_objects coll) \<or> linked_to_generated cs colls n)"
  using assms(2,4)
proof (induction colls)
  case Nil
  then show ?case by simp
next
  case (Cons x colls)
  show ?case
  proof (cases "x = coll")
    case True
    with Cons.prems(2) assms(3) have "c \<notin> dc_name ` set colls" by simp
    then have "\<forall>y \<in> set colls. dc_name y \<noteq> c" by blast
    then have "linked_to_generated (c # cs) colls n = linked_to_generated cs colls n"
      by (induction colls) (auto simp: linked_to_generated_def)
    with True assms(1,3) show ?thesis
      by (auto simp: linked_to_generated_def)
  next
    case False
    with Cons.prems have m: "coll \<in> set colls" and d: "distinct (map dc_name colls)"
      by simp_all
    from m Cons.prems(2) assms(3) have "dc_name x \<noteq> c" by auto
    with Cons.IH [OF m d] show ?thesis
      by (auto simp: linked_to_generated_def)
  qed
qed

lemma collections_remove_Ok:
  assumes "n \<in> set (map dc_name (bd_collections bd))"
  shows "collections_remove n bd =
           Ok (bd\<lparr>bd_collections := filter (\<lambda>c. dc_name c \<noteq> n) (bd_collections bd)\<rparr>)"
  using assms by (simp add: collections_remove_def)

lemma collections_loop_Ok:
  assumes "well_formed bd" and "distinct cs"
    and "set cs \<subseteq> set (map dc_name (bd_collections bd))"
  shows "\<exists>bd'. collections_loop cs bd = Ok bd'
     \<and> bd_objects bd' =
         filter (\<lambda>x. \<not> linked_to_generated cs (bd_collections bd) (dob_name x)) (bd_objects bd)
     \<and> bd_collections bd' =
         keep_linked (\<lambda>n. \<not> linked_to_generated cs (bd_collections bd) n)
           (filter (\<lambda>c. \<not> (dc_name c \<in> set cs \<and> generated_collection (dc_name c)))
              (bd_collections bd))
     \<and> map dm_name (bd_meshes bd') = map dm_name (bd_meshes bd)
     \<and> bd_node_groups bd' = bd_node_groups bd"
  using assms
proof (induction cs arbitrary: bd)
  case Nil
  then show ?case by (simp add: linked_to_generated_def keep_linked_def list_ex_iff)
next
  case (Cons c cs)
  let ?colls = "bd_collections bd"
  from Cons.prems(3) have cin: "c \<in> set (map dc_name ?colls)" by simp
  from find_name_Some [OF cin] obtain coll where
    fnd: "find (\<lambda>y. dc_name y = c) ?colls = Some coll" and
    nm: "dc_name coll = c" and mem: "coll \<in> set ?colls"
    by blast
  from Cons.prems(2) have d: "distinct cs" and cn: "c \<notin> set cs" by simp_all
  show ?case
  proof (cases "generated_collection c")
    case False
    from Cons.prems(3) have sub: "set cs \<subseteq> set (map dc_name ?colls)" by simp
    have L: "linked_to_generated (c # cs) ?colls = linked_to_generated cs ?colls"
      using linked_Cons_other [OF False] by (simp add: fun_eq_iff)
    have F: "(\<lambda>x. \<not> (dc_name x \<in> set (c # cs) \<and> generated_collection (dc_name x)))
           = (\<lambda>x. \<not> (dc_name x \<in> set cs \<and> generated_collection (dc_name x)))"
      using False by (auto simp: fun_eq_iff)
    from Cons.IH [OF Cons.prems(1) d sub] show ?thesis
      unfolding L F using fnd nm False by simp
  next
    case True
    let ?D = "dc_objects coll"
    from Cons.prems(1) mem have dD: "distinct ?D"
      and sD: "set ?D \<subseteq> set (map dob_name (bd_objects bd))"
      by (auto simp: well_formed_def list_all_iff)
    from remove_all_objects_Ok [OF dD sD] obtain bd1 where
      ok1: "remove_all_objects ?D bd = Ok bd1" and
      ob1: "bd_objects bd1 = filter (\<lambda>x. dob_name x \<notin> set ?D) (bd_objects bd)" and
      co1: "bd_collections bd1 = keep_linked (\<lambda>x. x \<notin> set ?D) ?colls" and
      me1: "map dm_name (bd_meshes bd1) = map dm_name (bd_meshes bd)" and
      ng1: "bd_node_groups bd1 = bd_node_groups bd"
      by blast
    define bd2 where "bd2 = bd1\<lparr>bd_collections := filter (\<lambda>x. dc_name x \<noteq> c) (bd_collections bd1)\<rparr>"
    from cin have "c \<in> set (map dc_name (bd_collections bd1))" by (simp add: co1)
    then have ok2: "collections_remove c bd1 = Ok bd2"
      by (simp add: collections_remove_Ok bd2_def)
    have ob2: "bd_objects bd2 = filter (\<lambda>x. dob_name x \<notin> set ?D) (bd_objects bd)"
      by (simp add: bd2_def ob1)
    have co2: "bd_collections bd2
         = keep_linked (\<lambda>x. x \<notin> set ?D) (filter (\<lambda>x. dc_name x \<noteq> c) ?colls)"
      using keep_linked_filter [of "\<lambda>x. x \<notin> set ?D" "\<lambda>m. m \<noteq> c" ?colls]
      by (simp add: bd2_def co1)
    have me2: "map dm_name (bd_meshes bd2) = map dm_name (bd_meshes bd)"
      by (simp add: bd2_def me1)
    have ng2: "bd_node_groups bd2 = bd_node_groups bd" by (simp add: bd2_def ng1)
    have wf2: "well_formed bd2"
      by (rule well_formed_purge [OF Cons.prems(1) ob2 co2 me2 ng2])
    have "set (map dc_name (bd_collections bd2)) = {m \<in> set (map dc_name ?colls). m \<noteq> c}"
      unfolding co2 keep_linked_names by (rule set_map_filter_name)
    with Cons.prems(3) cn have sub2: "set cs \<subseteq> set (map dc_name (bd_collections bd2))"
      by auto
    from Cons.IH [OF wf2 d sub2] obtain bd' where
      ok': "collections_loop cs bd2 = Ok bd'" and
      ob': "bd_objects bd' =
         filter (\<lambda>x. \<not> linked_to_generated cs (bd_collections bd2) (dob_name x)) (bd_objects bd2)" and
      co': "bd_collections bd' =
         keep_linked (\<lambda>n. \<not> linked_to_generated cs (bd_collections bd2) n)
           (filter (\<lambda>c. \<not> (dc_name c \<in> set cs \<and> generated_collection (dc_name c)))
              (bd_collections bd2))" and
      me': "map dm_name (bd_meshes bd') = map dm_name (bd_meshes bd2)" and
      ng': "bd_node_groups bd' = bd_node_groups bd2"
      by blast
    from Cons.prems(1) have dn: "distinct (map dc_name ?colls)" by (simp add: well_formed_def)
    have key: "(n \<notin> set ?D \<and> \<not> linked_to_generated cs (bd_collections bd2) n)
             = (\<not> linked_to_generated (c # cs) ?colls n)" for n
    proof -
      have a: "linked_to_generated (c # cs) ?colls n
             = (n \<in> set ?D \<or> linked_to_generated cs ?colls n)"
        by (rule linked_Cons_generated [OF True mem nm dn])
      have b: "linked_to_generated cs (bd_collections bd2) n
             = (n \<notin> set ?D \<and> linked_to_generated cs ?colls n)"
        unfolding co2 linked_keep_linked by (simp add: linked_filter_other [OF cn])
      show ?thesis unfolding a b by blast
    qed
    have obj: "bd_objects bd' =
         filter (\<lambda>x. \<not> linked_to_generated (c # cs) ?colls (dob_name x)) (bd_objects bd)"
      unfolding ob' ob2 by (simp add: key conj_commute)
    have flt: "(\<not> (dc_name x \<in> set cs \<and> generated_collection (dc_name x)) \<and> dc_name x \<noteq> c)
             = (\<not> (dc_name x \<in> set (c # cs) \<and> generated_collection (dc_name x)))" for x
      using True by auto
    have col: "bd_collections bd' =
         keep_linked (\<lambda>n. \<not> linked_to_generated (c # cs) ?colls n)
           (filter (\<lambda>x. \<not> (dc_name x \<in> set (c # cs) \<and> generated_collection (dc_name x))) ?colls)"
    proof -
      have "bd_collections bd' =
          keep_linked (\<lambda>n. \<not> linked_to_generated cs (bd_collections bd2) n)
           (keep_linked (\<lambda>x. x \<notin> set ?D)
             (filter (\<lambda>x. \<not> (dc_name x \<in> set cs \<and> generated_collection (dc_name x)))
               (filter (\<lambda>x. dc_name x \<noteq> c) ?colls)))"
        unfolding co' co2
        using keep_linked_filter [of "\<lambda>x. x \<notin> set ?D"
            "\<lambda>m. \<not> (m \<in> set cs \<and> generated_collection m)" "filter (\<lambda>x. dc_name x \<noteq> c) ?colls"]
        by simp
      also have "\<dots> = keep_linked (\<lambda>n. n \<notin> set ?D \<and> \<not> linked_to_generated cs (bd_collections bd2) n)
             (filter (\<lambda>x. \<not> (dc_name x \<in> set cs \<and> generated_collection (dc_name x)) \<and> dc_name x \<noteq> c)
                ?colls)"
        by (simp add: keep_linked_twice conj_commute)
      also have "\<dots> = keep_linked (\<lambda>n. \<not> linked_to_generated (c # cs) ?colls n)
           (filter (\<lambda>x. \<not> (dc_name x \<in> set (c # cs) \<and> generated_collection (dc_name x))) ?colls)"
        unfolding key flt ..
      finally show ?thesis .
    qed
    have run: "collections_loop (c # cs) bd = Ok bd'"
      using fnd nm True ok1 ok2 ok' by simp
    from run obj col me' me2 ng' ng2 show ?thesis by simp
  qed
qed

lemma objects_loop_Ok:
  assumes "distinct ns" and "set ns \<subseteq> set (map dob_name (bd_objects bd))"
  shows "\<exists>bd'. objects_loop ns bd = Ok bd'
     \<and> bd_objects bd' =
         filter (\<lambda>x. \<not> (dob_name x \<in> set ns \<and> kill_match (dob_name x))) (bd_objects bd)
     \<and> bd_collections bd' =
         keep_linked (\<lambda>n. \<not> (n \<in> set ns \<and> kill_match n)) (bd_collections bd)
     \<and> map dm_name (bd_meshes bd') = map dm_name (bd_meshes bd)
     \<and> bd_node_groups bd' = bd_node_groups bd"
  using assms
proof (induction ns arbitrary: bd)
  case Nil
  then show ?case by (simp add: keep_linked_def)
next
  case (Cons n ns)
  from Cons.prems have nin: "n \<in> set (map dob_name (bd_objects bd))" by simp
  from find_name_Some [OF nin] obtain ob where
    fnd: "find (\<lambda>y. dob_name y = n) (bd_objects bd) = Some ob" and nm: "dob_name ob = n"
    by blast
  from Cons.prems have d: "distinct ns" and nn: "n \<notin> set ns" by simp_all
  show ?case
  proof (cases "kill_match n")
    case False
    from Cons.prems have sub: "set ns \<subseteq> set (map dob_name (bd_objects bd))" by simp
    have P: "(\<lambda>m. \<not> (m \<in> set (n # ns) \<and> kill_match m)) = (\<lambda>m. \<not> (m \<in> set ns \<and> kill_match m))"
      using False by (auto simp: fun_eq_iff)
    have Q: "(\<lambda>x. \<not> (dob_name x \<in> set (n # ns) \<and> kill_match (dob_name x)))
           = (\<lambda>x. \<not> (dob_name x \<in> set ns \<and> kill_match (dob_name x)))"
      using False by (auto simp: fun_eq_iff)
    from Cons.IH [OF d sub] show ?thesis
      unfolding P Q using fnd nm False by simp
  next
    case True
    from objects_remove_Ok [OF nin] obtain bd1 where
      ok: "objects_remove n bd = Ok bd1" and
      ob: "bd_objects bd1 = filter (\<lambda>x. dob_name x \<noteq> n) (bd_objects bd)" and
      co: "bd_collections bd1 = map (unlink_object n) (bd_collections bd)" and
      me: "map dm_name (bd_meshes bd1) = map dm_name (bd_meshes bd)" and
      ng: "bd_node_groups bd1 = bd_node_groups bd"
      by blast
    have "set (map dob_name (bd_objects bd1)) = {m \<in> set (map dob_name (bd_objects bd)). m \<noteq> n}"
      unfolding ob by (rule set_map_filter_name)
    with Cons.prems nn have sub: "set ns \<subseteq> set (map dob_name (bd_objects bd1))" by auto
    from Cons.IH [OF d sub] obtain bd' where
      ok': "objects_loop ns bd1 = Ok bd'" and
      ob': "bd_objects bd' =
         filter (\<lambda>x. \<not> (dob_name x \<in> set ns \<and> kill_match (dob_name x))) (bd_objects bd1)" and
      co': "bd_collections bd' =
         keep_linked (\<lambda>m. \<not> (m \<in> set ns \<and> kill_match m)) (bd_collections bd1)" and
      me': "map dm_name (bd_meshes bd') = map dm_name (bd_meshes bd1)" and
      ng': "bd_node_groups bd' = bd_node_groups bd1"
      by blast
    have key: "(m \<noteq> n \<and> \<not> (m \<in> set ns \<and> kill_match m))
             = (\<not> (m \<in> set (n # ns) \<and> kill_match m))" for m
      using True by auto
    have obj: "bd_objects bd' =
         filter (\<lambda>x. \<not> (dob_name x \<in> set (n # ns) \<and> kill_match (dob_name x))) (bd_objects bd)"
      unfolding ob' ob filter_filter key [symmetric] by (simp add: conj_commute)
    have col: "bd_collections bd' =
         keep_linked (\<lambda>m. \<not> (m \<in> set (n # ns) \<and> kill_match m)) (bd_collections bd)"
      unfolding co' co unlink_is_keep_linked keep_linked_twice key ..
    have run: "objects_loop (n # ns) bd = Ok bd'"
      using fnd nm True ok ok' by simp
    from run obj col me me' ng ng' show ?thesis by simp
  qed
qed

lemma meshes_remove_Ok:
  assumes "n \<in> set (map dm_name (bd_meshes bd))"
  shows "meshes_remove n bd =
           Ok (bd\<lparr>bd_meshes := filter (\<lambda>me. dm_name me \<noteq> n) (bd_meshes bd)\<rparr>)"
  using assms by (simp add: meshes_remove_def)

lemma find_distinct_name:
  assumes "distinct (map f xs)" and "find (\<lambda>y. f y = n) xs = Some x"
    and "y \<in> set xs" and "f y = n"
  shows "y = x"
  using assms
proof (induction xs)
  case Nil
  then show ?case by simp
next
  case (Cons a xs)
  show ?case
  proof (cases "f a = n")
    case True
    with Cons.prems(2) have ax: "a = x" by simp
    from Cons.prems(1) True have "n \<notin> f ` set xs" by auto
    with Cons.prems(3,4) have "y = a" by auto
    with ax show ?thesis by simp
  next
    case False
    with Cons.prems have "distinct (map f xs)" "find (\<lambda>y. f y = n) xs = Some x" "y \<in> set xs"
      by auto
    from Cons.IH [OF this Cons.prems(4)] show ?thesis .
  qed
qed

lemma meshes_loop_Ok:
  assumes "distinct ms" and "set ms \<subseteq> set (map dm_name (bd_meshes bd))"
    and "distinct (map dm_name (bd_meshes bd))"
  shows "\<exists>bd'. meshes_loop ms bd = Ok bd'
     \<and> bd_meshes bd' =
         filter (\<lambda>m. \<not> (dm_name m \<in> set ms \<and> dm_users m = 0)) (bd_meshes bd)
     \<and> bd_objects bd' = bd_objects bd
     \<and> bd_collections bd' = bd_collections bd
     \<and> bd_node_groups bd' = bd_node_groups bd"
  using assms
proof (induction ms arbitrary: bd)
  case Nil
  then show ?case by simp
next
  case (Cons n ms)
  from Cons.prems have nin: "n \<in> set (map dm_name (bd_meshes bd))" by simp
  from find_name_Some [OF nin] obtain m where
    fnd: "find (\<lambda>y. dm_name y = n) (bd_meshes bd) = Some m" and nm: "dm_name m = n"
    and mem: "m \<in> set (bd_meshes bd)"
    by blast
  note only = find_distinct_name [OF Cons.prems(3) fnd]
  from Cons.prems have d: "distinct ms" and nn: "n \<notin> set ms" by simp_all
  show ?case
  proof (cases "dm_users m = 0")
    case False
    from Cons.prems have sub: "set ms \<subseteq> set (map dm_name (bd_meshes bd))" by simp
    have "filter (\<lambda>x. \<not> (dm_name x \<in> set (n # ms) \<and> dm_users x = 0)) (bd_meshes bd)
        = filter (\<lambda>x. \<not> (dm_name x \<in> set ms \<and> dm_users x = 0)) (bd_meshes bd)"
      using only False by (intro filter_cong) auto
    with Cons.IH [OF d sub Cons.prems(3)] show ?thesis
      using fnd False by simp
  next
    case True
    define bd1 where "bd1 = bd\<lparr>bd_meshes := filter (\<lambda>me. dm_name me \<noteq> n) (bd_meshes bd)\<rparr>"
    from meshes_remove_Ok [OF nin] have ok: "meshes_remove n bd = Ok bd1" by (simp add: bd1_def)
    have me1: "bd_meshes bd1 = filter (\<lambda>me. dm_name me \<noteq> n) (bd_meshes bd)"
      by (simp add: bd1_def)
    have "set (map dm_name (bd_meshes bd1)) = {k \<in> set (map dm_name (bd_meshes bd)). k \<noteq> n}"
      unfolding me1 by (rule set_map_filter_name)
    with Cons.prems nn have sub: "set ms \<subseteq> set (map dm_name (bd_meshes bd1))" by auto
    from Cons.prems(3) have d1: "distinct (map dm_name (bd_meshes bd1))"
      by (simp add: me1 distinct_map_filter)
    from Cons.IH [OF d sub d1] obtain bd' where
      ok': "meshes_loop ms bd1 = Ok bd'" and
      me': "bd_meshes bd' =
         filter (\<lambda>m. \<not> (dm_name m \<in> set ms \<and> dm_users m = 0)) (bd_meshes bd1)" and
      rest: "bd_objects bd' = bd_objects bd1" "bd_collections bd' = bd_collections bd1"
        "bd_node_groups bd' = bd_node_groups bd1"
      by blast
    have "bd_meshes bd' =
         filter (\<lambda>x. \<not> (dm_name x \<in> set (n # ms) \<and> dm_users x = 0)) (bd_meshes bd)"
      unfolding me' me1 filter_filter using only True by (intro filter_cong) auto
    moreover have "meshes_loop (n # ms) bd = Ok bd'"
      using fnd True ok ok' by simp
    ultimately show ?thesis using rest by (simp add: bd1_def)
  qed
qed

lemma node_groups_loop_Ok:
  assumes "distinct gs" and "set gs \<subseteq> set (bd_node_groups bd)"
  shows "\<exists>bd'. node_groups_loop gs bd = Ok bd'
     \<and> bd_node_groups bd' =
         filter (\<lambda>g. \<not> (g \<in> set gs \<and> generated_node_group g)) (bd_node_groups bd)
     \<and> bd_objects bd' = bd_objects bd
     \<and> bd_collections bd' = bd_collections bd
     \<and> bd_meshes bd' = bd_meshes bd"
  using assms
proof (induction gs arbitrary: bd)
  case Nil
  then show ?case by simp
next
  case (Cons g gs)
  from Cons.prems have gin: "g \<in> set (bd_node_groups bd)"
    and d: "distinct gs" and gn: "g \<notin> set gs" by simp_all
  show ?case
  proof (cases "generated_node_group g")
    case False
    from Cons.prems have sub: "set gs \<subseteq> set (bd_node_groups bd)" by simp
    have "filter (\<lambda>x. \<not> (x \<in> set (g # gs) \<and> generated_node_group x)) (bd_node_groups bd)
        = filter (\<lambda>x. \<not> (x \<in> set gs \<and> generated_node_group x)) (bd_node_groups bd)"
      using False by (intro filter_cong) auto
    with Cons.IH [OF d sub] show ?thesis using gin False by simp
  next
    case True
    define bd1 where "bd1 = bd\<lparr>bd_node_groups := filter (\<lambda>x. x \<noteq> g) (bd_node_groups bd)\<rparr>"
    from gin have ok: "node_groups_remove g bd = Ok bd1"
      by (simp add: node_groups_remove_def bd1_def)
    have ng1: "bd_node_groups bd1 = filter (\<lambda>x. x \<noteq> g) (bd_node_groups bd)"
      by (simp add: bd1_def)
    from Cons.prems gn have sub: "set gs \<subseteq> set (bd_node_groups bd1)"
      by (auto simp: ng1)
    from Cons.IH [OF d sub] obtain bd' where
      ok': "node_groups_loop gs bd1 = Ok bd'" and
      ng': "bd_node_groups bd' =
         filter (\<lambda>x. \<not> (x \<in> set gs \<and> generated_node_group x)) (bd_node_groups bd1)" and
      rest: "bd_objects bd' = bd_objects bd1" "bd_collections bd' = bd_collections bd1"
        "bd_meshes bd' = bd_meshes bd1"
      by blast
    have "bd_node_groups bd' =
         filter (\<lambda>x. \<not> (x \<in> set (g # gs) \<and> generated_node_group x)) (bd_node_groups bd)"
      unfolding ng' ng1 filter_filter using True by (intro filter_cong) auto
    moreover have "node_groups_loop (g # gs) bd = Ok bd'"
      using gin True ok ok' by simp
    ultimately show ?thesis using rest by (simp add: bd1_def)
  qed
qed

lemma collections_loop_skip:
  assumes "\<forall>c \<in> set cs. c \<in> set (map dc_name (bd_collections bd)) \<and> \<not> generated_collection c"
  shows "collections_loop cs bd = Ok bd"
  using assms
proof (induction cs)
  case Nil
  then show ?case by simp
next
  case (Cons c cs)
  then have cin: "c \<in> set (map dc_name (bd_collections bd))" and ng: "\<not> generated_collection c"
    by simp_all
  from find_name_Some [OF cin] obtain coll where
    "find (\<lambda>y. dc_name y = c) (bd_collections bd) = Some coll" "dc_name coll = c"
    by blast
  with ng Cons show ?case by simp
qed

lemma objects_loop_skip:
  assumes "\<forall>n \<in> set ns. n \<in> set (map dob_name (bd_objects bd)) \<and> \<not> kill_match n"
  shows "objects_loop ns bd = Ok bd"
  using assms
proof (induction ns)
  case Nil
  then show ?case by simp
next
  case (Cons n ns)
  then have nin: "n \<in> set (map dob_name (bd_objects bd))" and nk: "\<not> kill_match n"
    by simp_all
  from find_name_Some [OF nin] obtain ob where
    "find (\<lambda>y. dob_name y = n) (bd_objects bd) = Some ob" "dob_name ob = n"
    by blast
  with nk Cons show ?case by simp
qed

lemma meshes_loop_skip:
  assumes "set ms \<subseteq> set (map dm_name (bd_meshes bd))"
    and "\<forall>m \<in> set (bd_meshes bd). dm_users m \<noteq> 0"
  shows "meshes_loop ms bd = Ok bd"
  using assms(1)
proof (induction ms)
  case Nil
  then show ?case by simp
next
  case (Cons n ms)
  then have nin: "n \<in> set (map dm_name (bd_meshes bd))" by simp
  from find_name_Some [OF nin] obtain m where
    f: "find (\<lambda>y. dm_name y = n) (bd_meshes bd) = Some m" and "m \<in> set (bd_meshes bd)"
    by blast
  with assms(2) have "dm_users m \<noteq> 0" by blast
  with f Cons show ?case by simp
qed

lemma node_groups_loop_skip:
  assumes "\<forall>g \<in> set gs. g \<in> set (bd_node_groups bd) \<and> \<not> generated_node_group g"
  shows "node_groups_loop gs bd = Ok bd"
  using assms by (induction gs) simp_all

lemma linked_all_names:
  "linked_to_generated (map dc_name colls) colls n
     = list_ex (\<lambda>c. generated_collection (dc_name c) \<and> n \<in> set (dc_objects c)) colls"
  by (auto simp: linked_to_generated_def list_ex_iff)

lemma clean_old_result:
  assumes "well_formed bd"
  shows "\<exists>bd'. clean_old bd = Ok bd'
     \<and> bd_objects bd' =
         filter (\<lambda>ob. \<not> kill_match (dob_name ob) \<and> \<not> in_generated_collection bd (dob_name ob))
           (bd_objects bd)
     \<and> (\<forall>c \<in> set (bd_collections bd'). \<not> generated_collection (dc_name c))
     \<and> (\<forall>ob \<in> set (bd_objects bd'). \<not> kill_match (dob_name ob))
     \<and> (\<forall>m \<in> set (bd_meshes bd'). dm_users m \<noteq> 0)
     \<and> (\<forall>g \<in> set (bd_node_groups bd'). \<not> generated_node_group g)"
proof -
  let ?cs = "map dc_name (bd_collections bd)"
  from assms have dcs: "distinct ?cs" by (simp add: well_formed_def)
  from collections_loop_Ok [OF assms dcs subset_refl] obtain bd1 where
    ok1: "collections_loop ?cs bd = Ok bd1" and
    ob1: "bd_objects bd1 =
         filter (\<lambda>x. \<not> linked_to_generated ?cs (bd_collections bd) (dob_name x)) (bd_objects bd)" and
    co1: "bd_collections bd1 =
         keep_linked (\<lambda>n. \<not> linked_to_generated ?cs (bd_collections bd) n)
           (filter (\<lambda>c. \<not> (dc_name c \<in> set ?cs \<and> generated_collection (dc_name c)))
              (bd_collections bd))" and
    me1: "map dm_name (bd_meshes bd1) = map dm_name (bd_meshes bd)" and
    ng1: "bd_node_groups bd1 = bd_node_groups bd"
    by blast
  have wf1: "well_formed bd1"
    by (rule well_formed_purge [OF assms ob1 co1 me1 ng1])
  let ?ns = "map dob_name (bd_objects bd1)"
  from wf1 have dns: "distinct ?ns" by (simp add: well_formed_def)
  from objects_loop_Ok [OF dns subset_refl] obtain bd2 where
    ok2: "objects_loop ?ns bd1 = Ok bd2" and
    ob2: "bd_objects bd2 =
         filter (\<lambda>x. \<not> (dob_name x \<in> set ?ns \<and> kill_match (dob_name x))) (bd_objects bd1)" and
    co2: "bd_collections bd2 =
         keep_linked (\<lambda>n. \<not> (n \<in> set ?ns \<and> kill_match n)) (bd_collections bd1)" and
    me2: "map dm_name (bd_meshes bd2) = map dm_name (bd_meshes bd1)" and
    ng2: "bd_node_groups bd2 = bd_node_groups bd1"
    by blast
  let ?ms = "map dm_name (bd_meshes bd2)"
  from assms have dms: "distinct ?ms" by (simp add: well_formed_def me2 me1)
  from meshes_loop_Ok [OF dms subset_refl dms] obtain bd3 where
    ok3: "meshes_loop ?ms bd2 = Ok bd3" and
    me3: "bd_meshes bd3 =
         filter (\<lambda>m. \<not> (dm_name m \<in> set ?ms \<and> dm_users m = 0)) (bd_meshes bd2)" and
    ob3: "bd_objects bd3 = bd_objects bd2" and
    co3: "bd_collections bd3 = bd_collections bd2" and
    ng3: "bd_node_groups bd3 = bd_node_groups bd2"
    by blast
  let ?gs = "bd_node_groups bd3"
  from assms have dgs: "distinct ?gs" by (simp add: well_formed_def ng3 ng2 ng1)
  from node_groups_loop_Ok [OF dgs subset_refl] obtain bd4 where
    ok4: "node_groups_loop ?gs bd3 = Ok bd4" and
    ng4: "bd_node_groups bd4 =
         filter (\<lambda>g. \<not> (g \<in> set ?gs \<and> generated_node_group g)) (bd_node_groups bd3)" and
    ob4: "bd_objects bd4 = bd_objects bd3" and
    co4: "bd_collections bd4 = bd_collections bd3" and
    me4: "bd_meshes bd4 = bd_meshes bd3"
    by blast
  have run: "clean_old bd = Ok bd4"
    using ok1 ok2 ok3 ok4 by (simp add: clean_old_def)
  have link: "linked_to_generated ?cs (bd_collections bd) n = in_generated_collection bd n" for n
    by (simp add: linked_all_names in_generated_collection_def)
  have ob2': "bd_objects bd2 = filter (\<lambda>x. \<not> kill_match (dob_name x)) (bd_objects bd1)"
    unfolding ob2 by (intro filter_cong) auto
  have objs: "bd_objects bd4 =
         filter (\<lambda>ob. \<not> kill_match (dob_name ob) \<and> \<not> in_generated_collection bd (dob_name ob))
           (bd_objects bd)"
    unfolding ob4 ob3 ob2' ob1 link filter_filter by (simp add: conj_commute)
  have colls: "\<forall>c \<in> set (bd_collections bd4). \<not> generated_collection (dc_name c)"
  proof
    fix c
    assume "c \<in> set (bd_collections bd4)"
    then have "dc_name c \<in> set (map dc_name (bd_collections bd4))" by simp
    also have "map dc_name (bd_collections bd4)
        = map dc_name (filter (\<lambda>c. \<not> (dc_name c \<in> set ?cs \<and> generated_collection (dc_name c)))
              (bd_collections bd))"
      by (simp add: co4 co3 co2 co1)
    finally show "\<not> generated_collection (dc_name c)" by auto
  qed
  have kills: "\<forall>ob \<in> set (bd_objects bd4). \<not> kill_match (dob_name ob)"
    by (simp add: ob4 ob3 ob2')
  have users: "\<forall>m \<in> set (bd_meshes bd4). dm_users m \<noteq> 0"
    unfolding me4 me3 by auto
  have groups: "\<forall>g \<in> set (bd_node_groups bd4). \<not> generated_node_group g"
    unfolding ng4 by auto
  from run objs colls kills users groups show ?thesis by blast
qed

lemma clean_old_fixpoint:
  assumes "\<forall>c \<in> set (bd_collections bd). \<not> generated_collection (dc_name c)"
    and "\<forall>ob \<in> set (bd_objects bd). \<not> kill_match (dob_name ob)"
    and "\<forall>m \<in> set (bd_meshes bd). dm_users m \<noteq> 0"
    and "\<forall>g \<in> set (bd_node_groups bd). \<not> generated_node_group g"
  shows "clean_old bd = Ok bd"
proof -
  have 1: "collections_loop (map dc_name (bd_collections bd)) bd = Ok bd"
    by (rule collections_loop_skip) (use assms(1) in auto)
  have 2: "objects_loop (map dob_name (bd_objects bd)) bd = Ok bd"
    by (rule objects_loop_skip) (use assms(2) in auto)
  have 3: "meshes_loop (map dm_name (bd_meshes bd)) bd = Ok bd"
    by (rule meshes_loop_skip [OF subset_refl assms(3)])
  have 4: "node_groups_loop (bd_node_groups bd) bd = Ok bd"
    by (rule node_groups_loop_skip) (use assms(4) in auto)
  from 1 2 3 4 show ?thesis by (simp add: clean_old_def)
qed

text \<open>
  Claim C8. On well-formed data (Blender's names are distinct, collections link existing
  objects; the empty scene and a partly generated one are such) \<^verbatim>\<open>clean_old\<close> does not fail.
  The objects it leaves are exactly those whose name matches no entry of the denylist
  (neither equal to it nor starting with it followed by \<^verbatim>\<open>.\<close> or \<^verbatim>\<open>_\<close>) and that are linked to
  neither of the collections \<^verbatim>\<open>TBM_Ring\<close> and \<^verbatim>\<open>Tunnel\<close>, in their old order. Run again on the
  state it produced, it succeeds and returns that state unchanged.
\<close>

theorem clean_old_idempotent:
  assumes "well_formed bd"
  shows "\<exists>bd'. clean_old bd = Ok bd'
     \<and> bd_objects bd' =
         filter (\<lambda>ob. \<not> kill_match (dob_name ob) \<and> \<not> in_generated_collection bd (dob_name ob))
           (bd_objects bd)
     \<and> clean_old bd' = Ok bd'"
proof -
  from clean_old_result [OF assms] obtain bd' where
    r: "clean_old bd = Ok bd'"
      "bd_objects bd' =
         filter (\<lambda>ob. \<not> kill_match (dob_name ob) \<and> \<not> in_generated_collection bd (dob_name ob))
           (bd_objects bd)" and
    p: "\<forall>c \<in> set (bd_collections bd'). \<not> generated_collection (dc_name c)"
      "\<forall>ob \<in> set (bd_objects bd'). \<not> kill_match (dob_name ob)"
      "\<forall>m \<in> set (bd_meshes bd'). dm_users m \<noteq> 0"
      "\<forall>g \<in> set (bd_node_groups bd'). \<not> generated_node_group g"
    by blast
  from clean_old_fixpoint [OF p] r show ?thesis by blast
qed

text \<open>The definitions to unfold when the cleanup of concrete data is evaluated.\<close>

lemmas cleanup_eval =
  clean_old_def objects_remove_def collections_remove_def meshes_remove_def
  node_groups_remove_def unlink_object_def release_mesh_def kill_match_def kill_names_def
  generated_collection_def generated_node_group_def

theorem clean_old_idempotent_witness:
  "well_formed example_data
   \<and> clean_old example_data = Ok cleaned_data
   \<and> clean_old cleaned_data = Ok cleaned_data
   \<and> clean_old \<lparr>bd_collections = [], bd_objects = [], bd_meshes = [], bd_node_groups = []\<rparr>
       = Ok \<lparr>bd_collections = [], bd_objects = [], bd_meshes = [], bd_node_groups = []\<rparr>"
proof -
  have empty: "clean_old \<lparr>bd_collections = [], bd_objects = [], bd_meshes = [], bd_node_groups = []\<rparr>
       = Ok \<lparr>bd_collections = [], bd_objects = [], bd_meshes = [], bd_node_groups = []\<rparr>"
    by (simp add: clean_old_def)
  have wf: "well_formed example_data"
    by (simp add: well_formed_def example_data_def)
  have run: "clean_old example_data = Ok cleaned_data"
    by (simp add: example_data_def cleaned_data_def cleanup_eval)
  from clean_old_idempotent [OF wf] obtain bd' where
    "clean_old example_data = Ok bd'" and again: "clean_old bd' = Ok bd'"
    by blast
  with run have "bd' = cleaned_data" by simp
  with again wf run empty show ?thesis by simp
qed

end
